theory Spec2Isabelle
  imports Complex_Main "HOL-Library.Word" "HOL-Library.Stream" "HOL-Library.Signed_Division"
    "HOL-Library.Char_ord" "HOL-Library.List_Lexorder" "HOL-Library.Monad_Syntax"
    "HOL-Library.Log_Nat"
begin

section \<open>The QNX grid simulator (src/qnx/grid\_sim.cpp)\<close>

text \<open>
  The program is one sequential loop. Its inputs are the seed that
  \<^verbatim>\<open>std::random_device\<close> delivers and the successive readings of
  \<^verbatim>\<open>std::chrono::system_clock::now()\<close>; its effects are the characters written to
  \<^verbatim>\<open>std::cout\<close> and \<^verbatim>\<open>std::cerr\<close>, the flushes and the calls of
  \<^verbatim>\<open>std::this_thread::sleep_for\<close>. The embedding passes the generator and a record of
  the process environment (clock and effect trace) explicitly.

  A \<^verbatim>\<open>double\<close> is represented by the real number it denotes (every finite double is
  one); comparison of finite doubles is comparison of these numbers.

  The three functions of the source, \<^verbatim>\<open>getCurrentTimestamp\<close>, \<^verbatim>\<open>emitPowerEvent\<close> and
  \<^verbatim>\<open>main\<close>, are translated statement by statement. What they call from the C++ standard
  library is given by definitions of its documented behaviour: stream insertion and
  manipulators, calendar conversion, the clock conversions, and the random distribution.
  Sleeping is an effect in the trace; elapsed time is not represented.
\<close>

subsection \<open>Compiled-in constants\<close>

definition SECTORS :: "string list" where
  "SECTORS = [''sector-1'', ''sector-2'', ''sector-3'']"

definition NUM_SECTORS :: int where
  "NUM_SECTORS = 3"

definition NORMAL_VOLTAGE_MIN :: real where
  "NORMAL_VOLTAGE_MIN = 110.0"

definition NORMAL_VOLTAGE_MAX :: real where
  "NORMAL_VOLTAGE_MAX = 130.0"

definition FAILURE_VOLTAGE_MIN :: real where
  "FAILURE_VOLTAGE_MIN = 0.0"

definition FAILURE_VOLTAGE_MAX :: real where
  "FAILURE_VOLTAGE_MAX = 50.0"

definition LOAD_MIN :: real where
  "LOAD_MIN = 0.0"

definition LOAD_MAX :: real where
  "LOAD_MAX = 100.0"

definition EVENT_INTERVAL_SEC :: int where
  "EVENT_INTERVAL_SEC = 5"

subsection \<open>Streams, effects and the process environment\<close>

datatype ostream = Cout | Cerr

text \<open>
  One observable effect of the process: characters handed to a stream, a flush of a stream,
  or a blocking sleep of a number of seconds.
\<close>

datatype event = Write ostream string | Flush ostream | SleepFor int

text \<open>
  \<open>clock\<close> holds the readings that the coming calls of \<^verbatim>\<open>system_clock::now()\<close> return,
  each a count of nanoseconds since the epoch (the tick of libstdc++'s system clock, a signed
  64-bit count); \<open>trace\<close> is the sequence of effects so far, oldest first.
\<close>

record world =
  clock :: "int stream"
  trace :: "event list"

definition newline :: char where
  "newline = CHR 0x0A"

definition put :: "ostream \<Rightarrow> string \<Rightarrow> world \<Rightarrow> world" where
  "put os s w = w\<lparr>trace := trace w @ [Write os s]\<rparr>"

definition flush :: "ostream \<Rightarrow> world \<Rightarrow> world" where
  "flush os w = w\<lparr>trace := trace w @ [Flush os]\<rparr>"

text \<open>\<^verbatim>\<open>os << text << std::endl\<close>: the text, a newline, and a flush.\<close>

definition put_line :: "ostream \<Rightarrow> string \<Rightarrow> world \<Rightarrow> world" where
  "put_line os s w = flush os (put os (s @ [newline]) w)"

definition sleep_for :: "int \<Rightarrow> world \<Rightarrow> world" where
  "sleep_for secs w = w\<lparr>trace := trace w @ [SleepFor secs]\<rparr>"

subsection \<open>Library semantics: formatting numbers\<close>

definition digit_char :: "nat \<Rightarrow> char" where
  "digit_char d = ''0123456789'' ! d"

text \<open>The decimal digits of a natural number, as \<^verbatim>\<open>operator<<\<close> prints an unsigned value.\<close>

fun show_nat :: "nat \<Rightarrow> string" where
  "show_nat n = (if n < 10 then [digit_char n] else show_nat (n div 10) @ [digit_char (n mod 10)])"

declare show_nat.simps [simp del]

definition show_int :: "int \<Rightarrow> string" where
  "show_int i = (if i < 0 then ''-'' @ show_nat (nat (- i)) else show_nat (nat i))"

text \<open>
  \<^verbatim>\<open>std::setfill(c) << std::setw(n)\<close> before one insertion: the text is padded on the
  left (the default adjustment) up to the width, and never cut.
\<close>

definition setw_fill :: "nat \<Rightarrow> char \<Rightarrow> string \<Rightarrow> string" where
  "setw_fill n c s = replicate (n - length s) c @ s"

text \<open>
  Rounding of an exact value to an integer, ties to the even neighbour (the default rounding
  direction, which the conversion to decimal follows).
\<close>

definition round_half_even :: "real \<Rightarrow> int" where
  "round_half_even x =
     (let f = \<lfloor>x\<rfloor>; r = x - of_int f
      in if r < 1 / 2 then f else if 1 / 2 < r then f + 1 else if even f then f else f + 1)"

text \<open>
  \<^verbatim>\<open>os << std::fixed << std::setprecision(p) << x\<close> for a finite double \<open>x\<close>: the sign, the
  integer part, and (for a positive precision) a point and exactly \<open>p\<close> fractional digits of
  the value rounded to \<open>p\<close> places.
\<close>

definition show_fixed :: "nat \<Rightarrow> real \<Rightarrow> string" where
  "show_fixed p x =
     (let n = round_half_even (\<bar>x\<bar> * 10 ^ p)
      in (if x < 0 then ''-'' else [])
         @ show_nat (nat (n div 10 ^ p))
         @ (if p = 0 then [] else ''.'' @ setw_fill p (CHR ''0'') (show_nat (nat (n mod 10 ^ p)))))"

subsection \<open>Library semantics: calendar time\<close>

text \<open>The fields of \<^verbatim>\<open>struct tm\<close> that the format string reads.\<close>

record tm =
  tm_sec :: int
  tm_min :: int
  tm_hour :: int
  tm_mday :: int
  tm_mon :: int
  tm_year :: int

definition is_leap :: "int \<Rightarrow> bool" where
  "is_leap y = (y mod 4 = 0 \<and> (y mod 100 \<noteq> 0 \<or> y mod 400 = 0))"

definition days_in_year :: "int \<Rightarrow> int" where
  "days_in_year y = (if is_leap y then 366 else 365)"

definition days_in_month :: "int \<Rightarrow> int \<Rightarrow> int" where
  "days_in_month y m =
     (if m = 1 then (if is_leap y then 29 else 28)
      else if m = 3 \<or> m = 5 \<or> m = 8 \<or> m = 10 then 30 else 31)"

text \<open>
  Day \<open>d\<close> counted from 1 January of year \<open>y\<close> (negative: before it) falls in the year
  returned, at the returned offset from its 1 January.
\<close>

function year_of_days :: "int \<Rightarrow> int \<Rightarrow> int \<times> int" where
  "year_of_days y d =
     (if d < 0 then year_of_days (y - 1) (d + days_in_year (y - 1))
      else if days_in_year y \<le> d then year_of_days (y + 1) (d - days_in_year y)
      else (y, d))"
  by pat_completeness auto
termination
  by (relation "measure (\<lambda>(y, d). nat (if d < 0 then 366 - d else d))")
    (auto simp: days_in_year_def split: if_splits)

declare year_of_days.simps [simp del]

text \<open>Day \<open>d\<close> counted from the first day of month \<open>m\<close> (0 = January) of year \<open>y\<close>.\<close>

function month_of_days :: "int \<Rightarrow> int \<Rightarrow> int \<Rightarrow> int \<times> int" where
  "month_of_days y m d =
     (if m < 11 \<and> days_in_month y m \<le> d then month_of_days y (m + 1) (d - days_in_month y m)
      else (m, d))"
  by pat_completeness auto
termination
  by (relation "measure (\<lambda>(y, m, d). nat (11 - m))") auto

declare month_of_days.simps [simp del]

text \<open>
  \<^verbatim>\<open>std::gmtime\<close>: seconds since 1970-01-01T00:00:00Z as a broken-down time in UTC
  (proleptic Gregorian calendar, no leap seconds, as POSIX defines seconds since the epoch).
\<close>

definition gmtime :: "int \<Rightarrow> tm" where
  "gmtime t =
     (let days = t div 86400; secs = t mod 86400
      in case year_of_days 1970 days of (y, yd) \<Rightarrow>
         case month_of_days y 0 yd of (m, md) \<Rightarrow>
           \<lparr>tm_sec = secs mod 60, tm_min = secs div 60 mod 60, tm_hour = secs div 3600,
            tm_mday = md + 1, tm_mon = m, tm_year = y - 1900\<rparr>)"

text \<open>A two-digit field of \<^verbatim>\<open>std::put_time\<close> (\<^verbatim>\<open>%m %d %H %M %S\<close>): zero-padded to width 2.\<close>

definition two_digits :: "int \<Rightarrow> string" where
  "two_digits i = setw_fill 2 (CHR ''0'') (show_int i)"

text \<open>\<^verbatim>\<open>std::put_time(tm, "%Y-%m-%dT%H:%M:%S")\<close>.\<close>

definition put_time :: "tm \<Rightarrow> string" where
  "put_time t =
     show_int (tm_year t + 1900) @ ''-'' @ two_digits (tm_mon t + 1) @ ''-'' @ two_digits (tm_mday t)
     @ ''T'' @ two_digits (tm_hour t) @ '':'' @ two_digits (tm_min t) @ '':'' @ two_digits (tm_sec t)"

text \<open>
  \<^verbatim>\<open>system_clock::to_time_t\<close> and \<^verbatim>\<open>duration_cast<milliseconds>\<close>: integer division of the
  tick count, truncating towards zero.
\<close>

definition to_time_t :: "int \<Rightarrow> int" where
  "to_time_t now = now sdiv 1000000000"

definition duration_cast_milliseconds :: "int \<Rightarrow> int" where
  "duration_cast_milliseconds ns = ns sdiv 1000000"

subsection \<open>Library semantics: the random engine and the uniform distribution\<close>

text \<open>
  The state of a \<^verbatim>\<open>std::mt19937\<close> is represented by the 32-bit outputs it is going to
  deliver; one call of the engine takes the head.
\<close>

type_synonym mt19937 = "32 word stream"

text \<open>
  A \<^verbatim>\<open>double\<close> is represented by the real number that is its value. Every finite double is
  a multiple of \<open>2^-1074\<close>, the least positive one, and has at most 53 significant bits.
\<close>

definition denorm_min_exp :: nat where
  "denorm_min_exp = 1074"

text \<open>
  The result of an arithmetic operation in double precision: the exact result rounded to
  the nearest double, ties to the even neighbour (the default rounding direction). \<open>n\<close>
  counts the exact value in units of \<open>2^-1074\<close>, and \<open>s\<close> is the number of its low bits
  beyond the 53 that a double keeps. Overflow to infinity is not represented.
\<close>

definition round_to_double :: "real \<Rightarrow> real" where
  "round_to_double x =
     (let n = \<lfloor>\<bar>x\<bar> * 2 ^ denorm_min_exp\<rfloor>;
          s = nat (bitlen n - 53)
      in sgn x * real_of_int (round_half_even (\<bar>x\<bar> * 2 ^ denorm_min_exp / 2 ^ s) * 2 ^ s)
           / 2 ^ denorm_min_exp)"

text \<open>
  Modelled from the spec: \<^verbatim>\<open>std::uniform_real_distribution<double>(a, b)\<close> applied to the
  engine is library code, absent from the repository. The spec calls it a draw from a
  continuous uniform distribution over the fixed range \<open>a\<close> to \<open>b\<close>. The library computes
  the draw in double precision, and so it is computed here:
  \<^verbatim>\<open>std::generate_canonical<double, 53>\<close> takes two successive engine outputs, forms
  \<open>g\<^sub>0 + g\<^sub>1 * 2^32\<close> as a double (the only step of it that rounds) and divides by \<open>2^64\<close>,
  replacing a quotient of 1 by the double next below 1; the distribution returns
  \<open>u * (b - a) + a\<close> for this canonical variate \<open>u\<close>, each operation rounded.
\<close>

definition generate_canonical :: "mt19937 \<Rightarrow> real \<times> mt19937" where
  "generate_canonical g =
     (let g0 = shd g; g1 = shd (stl g);
          sum = round_to_double (real (unat g0) + real (unat g1) * 2 ^ 32);
          ret = sum / 2 ^ 64
      in (if 1 \<le> ret then 1 - 1 / 2 ^ 53 else ret, stl (stl g)))"

definition uniform_real_distribution :: "real \<Rightarrow> real \<Rightarrow> mt19937 \<Rightarrow> real \<times> mt19937" where
  "uniform_real_distribution a b g =
     (case generate_canonical g of (u, g') \<Rightarrow>
        (round_to_double (round_to_double (u * round_to_double (b - a)) + a), g'))"

subsection \<open>getCurrentTimestamp\<close>

text \<open>The text that \<^verbatim>\<open>getCurrentTimestamp\<close> builds from the clock reading \<open>now\<close>.\<close>

definition timestamp_of :: "int \<Rightarrow> string" where
  "timestamp_of now =
     (let time_t = to_time_t now;
          ms = duration_cast_milliseconds now smod 1000
      in put_time (gmtime time_t) @ ''.'' @ setw_fill 3 (CHR ''0'') (show_int ms) @ ''Z'')"

definition getCurrentTimestamp :: "world \<Rightarrow> string \<times> world" where
  "getCurrentTimestamp w = (timestamp_of (shd (clock w)), w\<lparr>clock := stl (clock w)\<rparr>)"

subsection \<open>emitPowerEvent\<close>

text \<open>The characters of the JSON event, before \<^verbatim>\<open>std::endl\<close>.\<close>

definition event_text :: "string \<Rightarrow> real \<Rightarrow> real \<Rightarrow> string \<Rightarrow> bool \<Rightarrow> string" where
  \<open>event_text sector_id voltage load ts is_failure =
     ''{''
     @ ''"sector_id":"'' @ sector_id @ ''",''
     @ ''"voltage":'' @ show_fixed 2 voltage @ '',''
     @ ''"load":'' @ show_fixed 2 load @ '',''
     @ ''"timestamp":"'' @ ts @ ''",''
     @ ''"status":'' @ (if is_failure then ''"failure"'' else ''"normal"'')
     @ ''}''\<close>

text \<open>
  The function, statement by statement, with the library's distribution as the parameter
  \<open>distr\<close>: \<open>distr a b gen\<close> is the double that a
  \<^verbatim>\<open>std::uniform_real_distribution<double>(a, b)\<close> returns when applied to the engine in
  state \<open>gen\<close>, and the state it leaves the engine in. What is proved for every \<open>distr\<close>
  holds whatever values the library delivers.
\<close>

definition emitPowerEvent_with ::
  "(real \<Rightarrow> real \<Rightarrow> 'g \<Rightarrow> real \<times> 'g) \<Rightarrow> string \<Rightarrow> 'g \<Rightarrow> world \<Rightarrow> 'g \<times> world" where
  "emitPowerEvent_with distr sector_id gen w =
     (case distr 0.0 130.0 gen of (voltage, gen1) \<Rightarrow>
      let is_failure = voltage < 50.0 in
      case distr LOAD_MIN LOAD_MAX gen1 of (load, gen2) \<Rightarrow>
      case getCurrentTimestamp w of (ts, w1) \<Rightarrow>
        (gen2, flush Cout (put_line Cout (event_text sector_id voltage load ts is_failure) w1)))"

text \<open>The function as the program runs it, with the distribution of the library.\<close>

definition emitPowerEvent :: "string \<Rightarrow> mt19937 \<Rightarrow> world \<Rightarrow> mt19937 \<times> world" where
  "emitPowerEvent sector_id gen w = emitPowerEvent_with uniform_real_distribution sector_id gen w"

subsection \<open>main\<close>

definition startup :: "world \<Rightarrow> world" where
  "startup w =
     put_line Cerr ''[QNX] Deterministic loop''
       (put_line Cerr ''[QNX] Sectors: sector-1, sector-2, sector-3''
         (put_line Cerr (''[QNX] Emitting power events every '' @ show_int EVENT_INTERVAL_SEC @ '' seconds'')
           (put_line Cerr ''[QNX] Grid Simulator started'' w)))"

text \<open>\<^verbatim>\<open>for (int i = 0; i < NUM_SECTORS; i++) emitPowerEvent(SECTORS[i], gen);\<close> from \<open>i\<close> on.\<close>

function sector_loop :: "int \<Rightarrow> mt19937 \<Rightarrow> world \<Rightarrow> mt19937 \<times> world" where
  "sector_loop i gen w =
     (if i < NUM_SECTORS
      then (case emitPowerEvent (SECTORS ! nat i) gen w of (gen', w') \<Rightarrow> sector_loop (i + 1) gen' w')
      else (gen, w))"
  by pat_completeness auto
termination
  by (relation "measure (\<lambda>(i, gen, w). nat (NUM_SECTORS - i))") auto

declare sector_loop.simps [simp del]

text \<open>
  The variables of \<^verbatim>\<open>main\<close> that live across iterations. \<open>cycle\<close> is an \<^verbatim>\<open>int\<close>:
  32 bits, read as a signed value.
\<close>

record main_state =
  cycle :: "32 word"
  gen :: mt19937
  env :: world

definition cycle_line :: "32 word \<Rightarrow> string" where
  "cycle_line c = ''[QNX] deterministic loop - cycle '' @ show_int (sint c)"

text \<open>The body of \<^verbatim>\<open>while (true)\<close>.\<close>

definition loop_body :: "main_state \<Rightarrow> main_state" where
  "loop_body s =
     (let c = cycle s + 1;
          w1 = put_line Cerr (cycle_line c) (env s)
      in case sector_loop 0 (gen s) w1 of (gen', w2) \<Rightarrow>
           \<lparr>cycle = c, gen = gen', env = sleep_for EVENT_INTERVAL_SEC w2\<rparr>)"

text \<open>
  \<^verbatim>\<open>while (true) { ... } return 0;\<close> as the value \<^verbatim>\<open>main\<close> returns: \<open>None\<close> when the
  loop does not end.
\<close>

partial_function (option) main_loop :: "main_state \<Rightarrow> int option" where
  "main_loop s = (if True then main_loop (loop_body s) else Some 0)"

text \<open>
  The state in which the loop is entered: \<open>rd\<close> is the value \<^verbatim>\<open>std::random_device\<close>
  delivers and \<open>seeded\<close> the engine's seeding constructor.
\<close>

definition main_init :: "(32 word \<Rightarrow> mt19937) \<Rightarrow> 32 word \<Rightarrow> world \<Rightarrow> main_state" where
  "main_init seeded rd w = \<lparr>cycle = 0, gen = seeded rd, env = startup w\<rparr>"

definition main :: "(32 word \<Rightarrow> mt19937) \<Rightarrow> 32 word \<Rightarrow> world \<Rightarrow> int option" where
  "main seeded rd w = main_loop (main_init seeded rd w)"

text \<open>The state of \<^verbatim>\<open>main\<close> after \<open>n\<close> complete iterations of the loop.\<close>

definition after_cycles :: "nat \<Rightarrow> (32 word \<Rightarrow> mt19937) \<Rightarrow> 32 word \<Rightarrow> world \<Rightarrow> main_state" where
  "after_cycles n seeded rd w = (loop_body ^^ n) (main_init seeded rd w)"

subsection \<open>What the process drew and wrote\<close>

text \<open>The effects that a step added to the trace, given the environment before and after it.\<close>

definition new_events :: "world \<Rightarrow> world \<Rightarrow> event list" where
  "new_events w w' = drop (length (trace w)) (trace w')"

text \<open>All characters handed to a stream, in order.\<close>

fun written :: "ostream \<Rightarrow> event list \<Rightarrow> string" where
  "written os [] = []"
| "written os (Write os' s # es) = (if os' = os then s @ written os es else written os es)"
| "written os (e # es) = written os es"

text \<open>
  The complete lines of a text: the characters between newlines, with \<open>acc\<close> the current
  line so far, latest character first. Characters after the last newline are no line yet.
\<close>

fun split_lines :: "string \<Rightarrow> string \<Rightarrow> string list" where
  "split_lines acc [] = []"
| "split_lines acc (c # s) =
     (if c = newline then rev acc # split_lines [] s else split_lines (c # acc) s)"

definition lines_written :: "ostream \<Rightarrow> event list \<Rightarrow> string list" where
  "lines_written os es = split_lines [] (written os es)"

fun sleeps :: "event list \<Rightarrow> int list" where
  "sleeps [] = []"
| "sleeps (SleepFor n # es) = n # sleeps es"
| "sleeps (e # es) = sleeps es"

text \<open>The two values that one call of \<^verbatim>\<open>emitPowerEvent\<close> draws from the engine state \<open>g\<close>.\<close>

definition voltage_drawn :: "mt19937 \<Rightarrow> real" where
  "voltage_drawn g = fst (uniform_real_distribution 0.0 130.0 g)"

definition load_drawn :: "mt19937 \<Rightarrow> real" where
  "load_drawn g =
     fst (uniform_real_distribution LOAD_MIN LOAD_MAX (snd (uniform_real_distribution 0.0 130.0 g)))"

text \<open>
  The line that one call of \<^verbatim>\<open>emitPowerEvent\<close> writes (without its newline) when the
  engine is in state \<open>g\<close> and the clock reads \<open>now\<close>.
\<close>

definition emitted_text :: "string \<Rightarrow> mt19937 \<Rightarrow> int \<Rightarrow> string" where
  "emitted_text sector_id g now =
     event_text sector_id (voltage_drawn g) (load_drawn g) (timestamp_of now)
       (voltage_drawn g < 50.0)"

subsection \<open>The reader's side: the record schema of the primary stream\<close>

text \<open>
  A Reading as a consumer of the primary stream sees it: the five fields of one line, each as
  the text it has on the line.
\<close>

record reading =
  f_sector_id :: string
  f_voltage :: string
  f_load :: string
  f_timestamp :: string
  f_status :: string

definition dquote :: char where
  "dquote = CHR 0x22"

definition is_digit :: "char \<Rightarrow> bool" where
  "is_digit c = (c \<in> set ''0123456789'')"

text \<open>
  Fixed-point notation with exactly two fractional digits: an optional sign, one or more
  digits, a point, two digits.
\<close>

definition fixed_point2 :: "string \<Rightarrow> bool" where
  "fixed_point2 s =
     (let body = (case s of [] \<Rightarrow> [] | c # r \<Rightarrow> if c = CHR ''-'' then r else s);
          n = length body
      in 4 \<le> n \<and> list_all is_digit (take (n - 3) body) \<and> body ! (n - 3) = CHR ''.''
         \<and> list_all is_digit (drop (n - 2) body))"

text \<open>The text \<open>p\<close> must come next.\<close>

definition expect :: "string \<Rightarrow> string \<Rightarrow> string option" where
  "expect p s = (if take (length p) s = p then Some (drop (length p) s) else None)"

text \<open>A quoted string without escapes: the characters up to the closing quote, and the rest.\<close>

definition read_string :: "string \<Rightarrow> (string \<times> string) option" where
  "read_string s =
     (case s of
        [] \<Rightarrow> None
      | c # r \<Rightarrow>
          if c = dquote \<and> dquote \<in> set r
          then Some (takeWhile (\<lambda>x. x \<noteq> dquote) r, tl (dropWhile (\<lambda>x. x \<noteq> dquote) r))
          else None)"

definition number_char :: "char \<Rightarrow> bool" where
  "number_char c = (is_digit c \<or> c = CHR ''.'' \<or> c = CHR ''-'')"

text \<open>A number token, accepted when it is in fixed-point notation with two fractional digits.\<close>

definition read_number :: "string \<Rightarrow> (string \<times> string) option" where
  "read_number s =
     (let tok = takeWhile number_char s
      in if fixed_point2 tok then Some (tok, dropWhile number_char s) else None)"

text \<open>
  One line of the primary stream, read against the schema of the spec: one object with the
  keys \<open>sector_id\<close>, \<open>voltage\<close>, \<open>load\<close>, \<open>timestamp\<close>, \<open>status\<close> in this order and nothing
  else, the numbers with two fractional digits, the status \<open>normal\<close> or \<open>failure\<close>.
\<close>

definition read_event :: "string \<Rightarrow> reading option" where
  \<open>read_event line = do {
     r0 \<leftarrow> expect ''{"sector_id":'' line;
     (sid, r1) \<leftarrow> read_string r0;
     r2 \<leftarrow> expect '',"voltage":'' r1;
     (v, r3) \<leftarrow> read_number r2;
     r4 \<leftarrow> expect '',"load":'' r3;
     (l, r5) \<leftarrow> read_number r4;
     r6 \<leftarrow> expect '',"timestamp":'' r5;
     (ts, r7) \<leftarrow> read_string r6;
     r8 \<leftarrow> expect '',"status":'' r7;
     (st, r9) \<leftarrow> read_string r8;
     if r9 = ''}'' \<and> (st = ''normal'' \<or> st = ''failure'')
     then Some \<lparr>f_sector_id = sid, f_voltage = v, f_load = l, f_timestamp = ts, f_status = st\<rparr>
     else None
   }\<close>

text \<open>The Readings on the primary stream: each complete line, read against the schema.\<close>

definition readings :: "event list \<Rightarrow> reading option list" where
  "readings es = map read_event (lines_written Cout es)"

text \<open>Space, tab, line feed, carriage return.\<close>

definition whitespace :: "char \<Rightarrow> bool" where
  "whitespace c = (c = CHR '' '' \<or> c = CHR 0x09 \<or> c = newline \<or> c = CHR 0x0D)"

subsection \<open>The effects of the loop, written out\<close>

text \<open>
  The effects of one iteration of the loop of \<^verbatim>\<open>main\<close> that prints the cycle number \<open>c\<close>,
  entered with the engine in state \<open>g\<close> and the clock about to deliver the readings \<open>clk\<close>.
\<close>

definition cycle_events :: "32 word \<Rightarrow> mt19937 \<Rightarrow> int stream \<Rightarrow> event list" where
  "cycle_events c g clk =
     [Write Cerr (cycle_line c @ [newline]), Flush Cerr,
      Write Cout (emitted_text ''sector-1'' g (clk !! 0) @ [newline]), Flush Cout, Flush Cout,
      Write Cout (emitted_text ''sector-2'' (sdrop 4 g) (clk !! 1) @ [newline]), Flush Cout, Flush Cout,
      Write Cout (emitted_text ''sector-3'' (sdrop 8 g) (clk !! 2) @ [newline]), Flush Cout, Flush Cout,
      SleepFor 5]"

text \<open>The four lines that \<^verbatim>\<open>main\<close> writes before the loop.\<close>

definition startup_events :: "event list" where
  "startup_events =
     [Write Cerr (''[QNX] Grid Simulator started'' @ [newline]), Flush Cerr,
      Write Cerr (''[QNX] Emitting power events every 5 seconds'' @ [newline]), Flush Cerr,
      Write Cerr (''[QNX] Sectors: sector-1, sector-2, sector-3'' @ [newline]), Flush Cerr,
      Write Cerr (''[QNX] Deterministic loop'' @ [newline]), Flush Cerr]"

text \<open>The effects of the first \<open>n\<close> iterations, from the engine state and clock at loop entry.\<close>

definition run_events :: "nat \<Rightarrow> mt19937 \<Rightarrow> int stream \<Rightarrow> event list" where
  "run_events n g clk =
     concat (map (\<lambda>k. cycle_events (of_nat (Suc k)) (sdrop (12 * k) g) (sdrop (3 * k) clk)) [0..<n])"

subsection \<open>Auxiliary notions: digits, days, clock readings, timestamps\<close>

text \<open>The \<open>k\<close> low decimal digits of \<open>n\<close>, most significant first.\<close>

fun fixed_digits :: "nat \<Rightarrow> nat \<Rightarrow> string" where
  "fixed_digits 0 n = []"
| "fixed_digits (Suc k) n = fixed_digits k (n div 10) @ [digit_char (n mod 10)]"

text \<open>
  The number of days of year \<open>y\<close> from the first day of month \<open>m\<close> (0 = January) to the end
  of the year.
\<close>

definition days_to_year_end :: "int \<Rightarrow> int \<Rightarrow> int" where
  "days_to_year_end y m =
     (if m \<le> 0 then 337 + days_in_month y 1
      else if m = 1 then 306 + days_in_month y 1
      else if m = 2 then 306 else if m = 3 then 275 else if m = 4 then 245
      else if m = 5 then 214 else if m = 6 then 184 else if m = 7 then 153
      else if m = 8 then 122 else if m = 9 then 92 else if m = 10 then 61 else 31)"

text \<open>
  A reading of the system clock that the clock can deliver: at or after the epoch, within the
  signed 64-bit count of nanoseconds.
\<close>

definition clock_reading :: "int \<Rightarrow> bool" where
  "clock_reading now = (0 \<le> now \<and> now < 2 ^ 63)"

text \<open>
  The shape \<^verbatim>\<open>YYYY-MM-DDTHH:MM:SS.mmmZ\<close>: 24 characters, digits except for the
  punctuation at its places.
\<close>

definition iso8601_ms :: "string \<Rightarrow> bool" where
  "iso8601_ms s =
     (length s = 24
      \<and> list_all is_digit (take 4 s) \<and> s ! 4 = CHR ''-''
      \<and> list_all is_digit (take 2 (drop 5 s)) \<and> s ! 7 = CHR ''-''
      \<and> list_all is_digit (take 2 (drop 8 s)) \<and> s ! 10 = CHR ''T''
      \<and> list_all is_digit (take 2 (drop 11 s)) \<and> s ! 13 = CHR '':''
      \<and> list_all is_digit (take 2 (drop 14 s)) \<and> s ! 16 = CHR '':''
      \<and> list_all is_digit (take 2 (drop 17 s)) \<and> s ! 19 = CHR ''.''
      \<and> list_all is_digit (take 3 (drop 20 s)) \<and> s ! 23 = CHR ''Z'')"

text \<open>The timestamps of the Readings on the primary stream, in the order of the lines.\<close>

definition timestamps :: "event list \<Rightarrow> string list" where
  "timestamps es =
     concat (map (\<lambda>r. case r of None \<Rightarrow> [] | Some x \<Rightarrow> [f_timestamp x]) (readings es))"

subsection \<open>The reader's side: the instant that a timestamp denotes\<close>

text \<open>
  An ISO-8601 UTC timestamp \<^verbatim>\<open>YYYY-MM-DDTHH:MM:SS.mmmZ\<close> names a day of the Gregorian
  calendar and a time of that day. Read as such, it denotes an instant, here counted in
  milliseconds since 1970-01-01T00:00:00.000Z.
\<close>

definition digit_value :: "char \<Rightarrow> nat" where
  "digit_value c = of_char c - 48"

definition read_nat :: "string \<Rightarrow> nat" where
  "read_nat s = foldl (\<lambda>n c. 10 * n + digit_value c) 0 s"

text \<open>The number of leap years among the years 1 to \<open>y\<close>.\<close>

definition leap_years_until :: "int \<Rightarrow> int" where
  "leap_years_until y = y div 4 - y div 100 + y div 400"

text \<open>The number of days from 1 January 1970 to 1 January of year \<open>y\<close>.\<close>

definition days_before_year :: "int \<Rightarrow> int" where
  "days_before_year y = 365 * (y - 1970) + (leap_years_until (y - 1) - leap_years_until 1969)"

text \<open>The number of days of year \<open>y\<close> before the first day of month \<open>m\<close> (1 = January).\<close>

definition days_before_month :: "int \<Rightarrow> int \<Rightarrow> int" where
  "days_before_month y m =
     [0, 31, 59, 90, 120, 151, 181, 212, 243, 273, 304, 334] ! nat (m - 1)
     + (if 2 < m \<and> is_leap y then 1 else 0)"

text \<open>The number of days of month \<open>m\<close> (1 = January) of year \<open>y\<close>.\<close>

definition month_length :: "int \<Rightarrow> int \<Rightarrow> int" where
  "month_length y m =
     (if m = 2 then (if is_leap y then 29 else 28)
      else if m = 4 \<or> m = 6 \<or> m = 9 \<or> m = 11 then 30 else 31)"

text \<open>
  The instant of a date and time of day in UTC, if there is such a day and such a time
  (a day without leap second).
\<close>

definition civil_instant :: "int \<Rightarrow> int \<Rightarrow> int \<Rightarrow> int \<Rightarrow> int \<Rightarrow> int \<Rightarrow> int \<Rightarrow> int option" where
  "civil_instant y mo d h mi s ms =
     (if 1 \<le> mo \<and> mo \<le> 12 \<and> 1 \<le> d \<and> d \<le> month_length y mo
         \<and> 0 \<le> h \<and> h < 24 \<and> 0 \<le> mi \<and> mi < 60 \<and> 0 \<le> s \<and> s < 60 \<and> 0 \<le> ms \<and> ms < 1000
      then Some (((((days_before_year y + days_before_month y mo + (d - 1)) * 24 + h) * 60 + mi) * 60
                   + s) * 1000 + ms)
      else None)"

definition instant_of_timestamp :: "string \<Rightarrow> int option" where
  "instant_of_timestamp s =
     (if iso8601_ms s
      then civil_instant (int (read_nat (take 4 s))) (int (read_nat (take 2 (drop 5 s))))
             (int (read_nat (take 2 (drop 8 s)))) (int (read_nat (take 2 (drop 11 s))))
             (int (read_nat (take 2 (drop 14 s)))) (int (read_nat (take 2 (drop 17 s))))
             (int (read_nat (take 3 (drop 20 s))))
      else None)"

section \<open>Properties\<close>

lemma digit_char_is_digit: "d < 10 \<Longrightarrow> is_digit (digit_char d)"
  unfolding is_digit_def digit_char_def by (rule nth_mem) simp

lemma show_nat_digits: "list_all is_digit (show_nat n)"
proof (induction n rule: show_nat.induct)
  case (1 n)
  show ?case
  proof (cases "n < 10")
    case True
    then show ?thesis by (simp add: show_nat.simps digit_char_is_digit)
  next
    case False
    with 1 have "list_all is_digit (show_nat (n div 10))" by simp
    moreover have "is_digit (digit_char (n mod 10))" by (simp add: digit_char_is_digit)
    ultimately show ?thesis using False by (subst show_nat.simps) simp
  qed
qed

lemma show_nat_nonempty: "show_nat n \<noteq> []"
  by (subst show_nat.simps) simp

lemma show_nat_two: "n < 100 \<Longrightarrow> setw_fill 2 (CHR ''0'') (show_nat n) = [digit_char (n div 10), digit_char (n mod 10)]"
  by (cases "n < 10") (simp_all add: setw_fill_def digit_char_def show_nat.simps[of n] show_nat.simps[of "n div 10"])

lemma round_half_even_nonneg: "0 \<le> x \<Longrightarrow> 0 \<le> round_half_even x"
  by (auto simp: round_half_even_def Let_def)

subsection \<open>Rounding to double precision\<close>

lemma round_half_even_of_int: "round_half_even (of_int k) = k"
  by (simp add: round_half_even_def)

lemma round_half_even_le:
  assumes "x \<le> of_int k"
  shows "round_half_even x \<le> k"
proof (cases "x = of_int k")
  case True
  then show ?thesis by (simp add: round_half_even_of_int)
next
  case False
  with assms have "x < of_int k" by simp
  then have "\<lfloor>x\<rfloor> < k" by (simp add: floor_less_iff)
  then show ?thesis by (simp add: round_half_even_def Let_def)
qed

lemma round_to_double_nonneg: "0 \<le> x \<Longrightarrow> 0 \<le> round_to_double x"
  by (simp add: round_to_double_def Let_def round_half_even_nonneg sgn_if)

lemma round_to_double_pos:
  assumes "0 < x" "nat (bitlen \<lfloor>x * 2 ^ denorm_min_exp\<rfloor> - 53) = s"
  shows "round_to_double x
    = real_of_int (round_half_even (x * 2 ^ denorm_min_exp / 2 ^ s) * 2 ^ s) / 2 ^ denorm_min_exp"
  using assms(1) unfolding assms(2)[symmetric] by (simp add: round_to_double_def Let_def)

lemma bitlen_mono: "a \<le> b \<Longrightarrow> bitlen a \<le> bitlen b"
  by (simp add: bitlen_def floorlog_mono)

text \<open>Rounding does not pass a double: a value of at most 53 significant bits.\<close>

lemma round_to_double_le:
  assumes "0 \<le> x" "x \<le> of_int K * 2 ^ t" "0 < K" "K < 2 ^ 53"
  shows "round_to_double x \<le> of_int K * 2 ^ t"
proof -
  define S :: real where "S = 2 ^ denorm_min_exp"
  define N :: int where "N = K * 2 ^ (t + denorm_min_exp)"
  define n where "n = \<lfloor>x * S\<rfloor>"
  define s where "s = nat (bitlen n - 53)"
  have S: "0 < S" by (simp add: S_def)
  have N: "of_int N = of_int K * 2 ^ t * S" by (simp add: N_def S_def power_add)
  have xN: "x * S \<le> of_int N" unfolding N using assms(2) S by simp
  then have "n \<le> N" unfolding n_def using floor_mono[OF xN] by simp
  then have "bitlen n \<le> bitlen N" by (rule bitlen_mono)
  also have "bitlen N = bitlen K + int (t + denorm_min_exp)"
    unfolding N_def using assms(3) by (simp only: bitlen_pow2)
  also have "bitlen K \<le> 53" using assms(4) by (simp add: bitlen_le_iff_power)
  finally have "bitlen n - 53 \<le> int (t + denorm_min_exp)" by simp
  then have s: "s \<le> t + denorm_min_exp" by (simp add: s_def)
  define j where "j = t + denorm_min_exp - s"
  have Nj: "N = K * 2 ^ j * 2 ^ s"
    using s by (simp add: N_def j_def power_add[symmetric])
  have "x * S / 2 ^ s \<le> of_int (K * 2 ^ j)"
    using xN unfolding Nj by (simp add: field_simps)
  then have "round_half_even (x * S / 2 ^ s) \<le> K * 2 ^ j" by (rule round_half_even_le)
  then have "round_half_even (x * S / 2 ^ s) * 2 ^ s \<le> N"
    unfolding Nj by simp
  then have "real_of_int (round_half_even (x * S / 2 ^ s) * 2 ^ s) \<le> of_int N"
    by (simp only: of_int_le_iff)
  then have le: "real_of_int (round_half_even (x * S / 2 ^ s) * 2 ^ s) / S \<le> of_int K * 2 ^ t"
    unfolding N using S by (simp add: field_simps)
  have B: "0 \<le> real_of_int K * 2 ^ t" using assms(3) by simp
  have rd: "round_to_double x = sgn x * real_of_int (round_half_even (x * S / 2 ^ s) * 2 ^ s) / S"
    using assms(1) by (simp add: round_to_double_def Let_def S_def s_def n_def)
  show ?thesis
  proof (cases "x = 0")
    case True
    then have "round_to_double x = 0" unfolding rd by simp
    then show ?thesis using B by simp
  next
    case False
    with assms(1) have "sgn x = 1" by simp
    then show ?thesis using le unfolding rd by simp
  qed
qed

text \<open>A value of at most 53 significant bits on the grid of the doubles is not changed.\<close>

lemma round_to_double_grid:
  assumes "0 < K" "K < 2 ^ 53" "x * 2 ^ denorm_min_exp = of_int K * 2 ^ j"
  shows "round_to_double x = x"
proof -
  define S :: real where "S = 2 ^ denorm_min_exp"
  define s where "s = nat (bitlen (K * 2 ^ j) - 53)"
  have S: "0 < S" by (simp add: S_def)
  have xS: "x * S = of_int (K * 2 ^ j)" using assms(3) by (simp add: S_def)
  have "0 < x * S" unfolding xS using assms(1) by simp
  then have x: "0 < x" using S by (simp add: zero_less_mult_iff)
  have "bitlen (K * 2 ^ j) = bitlen K + int j" using assms(1) by (simp only: bitlen_pow2)
  moreover have "bitlen K \<le> 53" using assms(2) by (simp add: bitlen_le_iff_power)
  ultimately have s: "s \<le> j" by (simp add: s_def)
  have "(2 :: real) ^ j = 2 ^ (j - s) * 2 ^ s"
    using s by (simp add: power_add[symmetric])
  then have "x * S / 2 ^ s = of_int (K * 2 ^ (j - s))"
    unfolding xS by simp
  then have "round_half_even (x * S / 2 ^ s) = K * 2 ^ (j - s)"
    by (simp only: round_half_even_of_int)
  then have "round_half_even (x * S / 2 ^ s) * 2 ^ s = K * 2 ^ j"
    using s by (simp add: power_add[symmetric])
  moreover have "round_to_double x = real_of_int (round_half_even (x * S / 2 ^ s) * 2 ^ s) / S"
  proof -
    have "\<lfloor>x * 2 ^ denorm_min_exp\<rfloor> = K * 2 ^ j"
      using xS unfolding S_def by (simp only: floor_of_int)
    then have "nat (bitlen \<lfloor>x * 2 ^ denorm_min_exp\<rfloor> - 53) = s" by (simp only: s_def)
    from round_to_double_pos[OF x this] show ?thesis by (simp only: S_def)
  qed
  ultimately have "round_to_double x = of_int (K * 2 ^ j) / S" by (simp only:)
  also have "\<dots> = x" unfolding xS[symmetric] using S by simp
  finally show ?thesis .
qed

lemma round_to_double_int:
  assumes "0 < K" "K < 2 ^ 53"
  shows "round_to_double (of_int K * 2 ^ t) = of_int K * 2 ^ t"
  using assms by (rule round_to_double_grid[where j = "t + denorm_min_exp"]) (simp add: power_add)

lemma round_to_double_frac:
  assumes "0 < K" "K < 2 ^ 53" "t \<le> denorm_min_exp"
  shows "round_to_double (of_int K / 2 ^ t) = of_int K / 2 ^ t"
  using assms(1,2)
  by (rule round_to_double_grid[where j = "denorm_min_exp - t"]) (simp add: power_diff assms(3))

lemma round_to_double_0: "round_to_double 0 = 0"
  by (simp add: round_to_double_def)

text \<open>A value of more than 53 bits is rounded at the place of its 53rd bit.\<close>

lemma round_to_double_large:
  assumes "2 ^ 52 \<le> x / 2 ^ k" "x / 2 ^ k < 2 ^ 53"
  shows "round_to_double x = of_int (round_half_even (x / 2 ^ k)) * 2 ^ k"
proof -
  define S :: real where "S = 2 ^ denorm_min_exp"
  define n where "n = \<lfloor>x * S\<rfloor>"
  have S: "0 < S" by (simp add: S_def)
  have x: "0 < x"
  proof -
    have "(0 :: real) < 2 ^ 52" by simp
    also note assms(1)
    finally show ?thesis by (simp add: zero_less_divide_iff)
  qed
  have lo: "2 ^ (52 + k + denorm_min_exp) \<le> x * S"
    using assms(1) by (simp add: S_def power_add field_simps)
  have hi: "x * S < 2 ^ (53 + k + denorm_min_exp)"
    using assms(2) by (simp add: S_def power_add field_simps)
  have "of_int (2 ^ (52 + k + denorm_min_exp)) \<le> x * S" using lo by simp
  then have n1: "2 ^ (52 + k + denorm_min_exp) \<le> n" unfolding n_def by (simp only: le_floor_iff)
  have "x * S < of_int (2 ^ (53 + k + denorm_min_exp))" using hi by simp
  then have n2: "n < 2 ^ (53 + k + denorm_min_exp)" unfolding n_def by (simp only: floor_less_iff)
  have "bitlen n \<le> int (53 + k + denorm_min_exp)"
    unfolding bitlen_le_iff_power nat_int using n2 by simp
  moreover have "\<not> bitlen n \<le> int (52 + k + denorm_min_exp)"
    unfolding bitlen_le_iff_power nat_int using n1 by simp
  ultimately have "bitlen n = int (53 + k + denorm_min_exp)" by simp
  then have s: "nat (bitlen n - 53) = k + denorm_min_exp" by simp
  have "x * S / 2 ^ (k + denorm_min_exp) = x / 2 ^ k" by (simp add: S_def power_add)
  moreover have "round_to_double x
      = real_of_int (round_half_even (x * S / 2 ^ (k + denorm_min_exp)) * 2 ^ (k + denorm_min_exp)) / S"
    unfolding S_def by (rule round_to_double_pos[OF x]) (simp only: s[unfolded n_def S_def])
  ultimately have "round_to_double x
      = real_of_int (round_half_even (x / 2 ^ k) * 2 ^ (k + denorm_min_exp)) / S"
    by (simp only:)
  also have "\<dots> = of_int (round_half_even (x / 2 ^ k)) * 2 ^ k"
    by (simp add: S_def power_add)
  finally show ?thesis .
qed

text \<open>A value below \<open>2^52\<close> is rounded at the place of its 53rd bit, after the point.\<close>

lemma round_to_double_small:
  assumes "k \<le> denorm_min_exp" "2 ^ 52 \<le> x * 2 ^ k" "x * 2 ^ k < 2 ^ 53"
  shows "round_to_double x = of_int (round_half_even (x * 2 ^ k)) / 2 ^ k"
proof -
  define S :: real where "S = 2 ^ denorm_min_exp"
  define j where "j = denorm_min_exp - k"
  define n where "n = \<lfloor>x * S\<rfloor>"
  have S: "S = 2 ^ k * 2 ^ j" using assms(1) by (simp add: S_def j_def power_add[symmetric])
  have x: "0 < x"
  proof -
    have "(0 :: real) < 2 ^ 52" by simp
    also note assms(2)
    finally show ?thesis by (simp add: zero_less_mult_iff)
  qed
  have lo: "2 ^ (52 + j) \<le> x * S"
    using assms(2) by (simp add: S power_add field_simps)
  have hi: "x * S < 2 ^ (53 + j)"
    using assms(3) by (simp add: S power_add field_simps)
  have "of_int (2 ^ (52 + j)) \<le> x * S" using lo by simp
  then have n1: "2 ^ (52 + j) \<le> n" unfolding n_def by (simp only: le_floor_iff)
  have "x * S < of_int (2 ^ (53 + j))" using hi by simp
  then have n2: "n < 2 ^ (53 + j)" unfolding n_def by (simp only: floor_less_iff)
  have "bitlen n \<le> int (53 + j)"
    unfolding bitlen_le_iff_power nat_int using n2 by simp
  moreover have "\<not> bitlen n \<le> int (52 + j)"
    unfolding bitlen_le_iff_power nat_int using n1 by simp
  ultimately have "bitlen n = int (53 + j)" by simp
  then have s: "nat (bitlen n - 53) = j" by simp
  have "x * S / 2 ^ j = x * 2 ^ k" by (simp add: S)
  moreover have "round_to_double x = real_of_int (round_half_even (x * S / 2 ^ j) * 2 ^ j) / S"
    unfolding S_def by (rule round_to_double_pos[OF x]) (simp only: s[unfolded n_def S_def])
  ultimately have "round_to_double x = real_of_int (round_half_even (x * 2 ^ k) * 2 ^ j) / S"
    by (simp only:)
  also have "\<dots> = of_int (round_half_even (x * 2 ^ k)) / 2 ^ k"
    by (simp add: S)
  finally show ?thesis .
qed

lemma round_to_double_examples:
  "round_to_double 130 = 130" "round_to_double 100 = 100"
  "round_to_double 4611686018427387904 = 4611686018427387904"
  "round_to_double 9223372036854775808 = 9223372036854775808"
  "round_to_double (65 / 2) = 65 / 2" "round_to_double 50 = 50"
  "round_to_double 7094576787992084480 = 7094576787992084480"
  "round_to_double (1638325 / 32768) = 1638325 / 32768"
  using round_to_double_int[of 65 1] round_to_double_int[of 25 2] round_to_double_int[of 1 62]
    round_to_double_int[of 1 63] round_to_double_frac[of 65 1] round_to_double_int[of 25 1]
    round_to_double_int[of 1651834880 32] round_to_double_frac[of 1638325 15]
  by (simp_all add: denorm_min_exp_def)

subsection \<open>Numbers with two fractional digits\<close>

lemma show_fixed2_form:
  "\<exists>k a b. a < 10 \<and> b < 10 \<and>
     show_fixed 2 x = (if x < 0 then ''-'' else []) @ show_nat k @ [CHR ''.'', digit_char a, digit_char b]"
proof -
  define n where "n = round_half_even (\<bar>x\<bar> * 10 ^ 2)"
  have "0 \<le> n" unfolding n_def by (rule round_half_even_nonneg) simp
  then have m: "nat (n mod 10 ^ 2) < 100" by simp
  have "show_fixed 2 x = (if x < 0 then ''-'' else []) @ show_nat (nat (n div 10 ^ 2))
      @ [CHR ''.'', digit_char (nat (n mod 10 ^ 2) div 10), digit_char (nat (n mod 10 ^ 2) mod 10)]"
    unfolding show_fixed_def n_def[symmetric] Let_def using show_nat_two[OF m] by simp
  moreover have "nat (n mod 10 ^ 2) div 10 < 10" using m by simp
  moreover have "nat (n mod 10 ^ 2) mod 10 < 10" by simp
  ultimately show ?thesis by blast
qed

lemma fixed_point2_show_fixed: "fixed_point2 (show_fixed 2 x)"
proof -
  obtain k a b where ab: "a < 10" "b < 10"
    and eq: "show_fixed 2 x = (if x < 0 then ''-'' else []) @ show_nat k @ [CHR ''.'', digit_char a, digit_char b]"
    using show_fixed2_form by blast
  let ?body = "show_nat k @ [CHR ''.'', digit_char a, digit_char b]"
  have hd: "hd (show_nat k) \<noteq> CHR ''-''"
    using show_nat_digits[of k] show_nat_nonempty[of k]
    by (cases "show_nat k") (auto simp: is_digit_def)
  have body: "(case show_fixed 2 x of [] \<Rightarrow> [] | c # r \<Rightarrow> if c = CHR ''-'' then r else show_fixed 2 x) = ?body"
    using hd show_nat_nonempty[of k] unfolding eq by (cases "show_nat k") auto
  have len: "length ?body = length (show_nat k) + 3" by simp
  have pos: "Suc 0 \<le> length (show_nat k)" using show_nat_nonempty[of k] by (cases "show_nat k") auto
  show ?thesis
    unfolding fixed_point2_def body Let_def len
    using pos show_nat_digits[of k] ab by (simp add: digit_char_is_digit nth_append)
qed

lemma number_char_show_fixed: "list_all number_char (show_fixed 2 x)"
proof -
  obtain k a b where ab: "a < 10" "b < 10"
    and eq: "show_fixed 2 x = (if x < 0 then ''-'' else []) @ show_nat k @ [CHR ''.'', digit_char a, digit_char b]"
    using show_fixed2_form by blast
  have "list_all number_char (show_nat k)"
    using show_nat_digits[of k] by (simp add: list_all_iff number_char_def)
  then show ?thesis unfolding eq using ab by (simp add: number_char_def digit_char_is_digit)
qed

subsection \<open>What one call of emitPowerEvent does\<close>

lemma uniform_real_distribution_snd: "snd (uniform_real_distribution a b g) = stl (stl g)"
  by (simp add: uniform_real_distribution_def generate_canonical_def Let_def)

lemma emitPowerEvent_gen: "fst (emitPowerEvent sector_id g w) = stl (stl (stl (stl g)))"
  using uniform_real_distribution_snd[of "0.0" "130.0" g]
    uniform_real_distribution_snd[of LOAD_MIN LOAD_MAX "stl (stl g)"]
  by (auto simp: emitPowerEvent_def emitPowerEvent_with_def getCurrentTimestamp_def Let_def split: prod.splits)

lemma emitPowerEvent_clock: "clock (snd (emitPowerEvent sector_id g w)) = stl (clock w)"
  by (simp add: emitPowerEvent_def emitPowerEvent_with_def getCurrentTimestamp_def Let_def put_line_def put_def flush_def
      split: prod.splits)

lemma emitPowerEvent_trace:
  "trace (snd (emitPowerEvent sector_id g w)) =
     trace w @ [Write Cout (emitted_text sector_id g (shd (clock w)) @ [newline]), Flush Cout, Flush Cout]"
  by (auto simp: emitPowerEvent_def emitPowerEvent_with_def getCurrentTimestamp_def Let_def put_line_def put_def flush_def
      emitted_text_def voltage_drawn_def load_drawn_def split: prod.splits)

lemma emitPowerEvent_new_events:
  "new_events w (snd (emitPowerEvent sector_id g w)) =
     [Write Cout (emitted_text sector_id g (shd (clock w)) @ [newline]), Flush Cout, Flush Cout]"
  by (simp add: new_events_def emitPowerEvent_trace)

subsection \<open>Lines\<close>

lemma split_lines_line:
  "newline \<notin> set l \<Longrightarrow> split_lines acc (l @ newline # rest) = (rev acc @ l) # split_lines [] rest"
  by (induction l arbitrary: acc) auto

subsection \<open>Reading a line back\<close>

lemma expect_prefix: "expect p (p @ rest) = Some rest"
  by (simp add: expect_def)

lemma takeWhile_until: "c \<notin> set s \<Longrightarrow> takeWhile (\<lambda>x. x \<noteq> c) (s @ c # rest) = s"
  by (induction s) auto

lemma dropWhile_until: "c \<notin> set s \<Longrightarrow> dropWhile (\<lambda>x. x \<noteq> c) (s @ c # rest) = c # rest"
  by (induction s) auto

lemma read_string_quoted:
  "dquote \<notin> set s \<Longrightarrow> read_string (dquote # s @ dquote # rest) = Some (s, rest)"
  by (simp add: read_string_def takeWhile_until dropWhile_until)

lemma read_number_token:
  assumes "list_all number_char tok" "fixed_point2 tok" "\<not> number_char c"
  shows "read_number (tok @ c # rest) = Some (tok, c # rest)"
proof -
  have "takeWhile number_char (tok @ c # rest) = tok"
    using assms(1,3) by (simp add: list_all_iff)
  moreover have "dropWhile number_char (tok @ c # rest) = c # rest"
    using assms(1,3) by (simp add: list_all_iff)
  ultimately show ?thesis using assms(2) by (simp add: read_number_def)
qed

lemma event_text_shape:
  \<open>event_text sid v l ts f =
     ''{"sector_id":'' @ dquote # sid @ dquote #
     '',"voltage":'' @ show_fixed 2 v @ CHR '','' #
     ''"load":'' @ show_fixed 2 l @ CHR '','' #
     ''"timestamp":'' @ dquote # ts @ dquote #
     '',"status":'' @ dquote # (if f then ''failure'' else ''normal'') @ dquote # ''}''\<close>
  by (simp add: event_text_def dquote_def)

lemma read_event_event_text:
  assumes "dquote \<notin> set sid" "dquote \<notin> set ts"
  shows "read_event (event_text sid v l ts f) =
    Some \<lparr>f_sector_id = sid, f_voltage = show_fixed 2 v, f_load = show_fixed 2 l,
          f_timestamp = ts, f_status = (if f then ''failure'' else ''normal'')\<rparr>"
proof -
  have comma: "\<not> number_char (CHR '','')"
    by (simp add: number_char_def is_digit_def)
  have st: "dquote \<notin> set (if f then ''failure'' else ''normal'')"
    by (simp add: dquote_def)
  note num = read_number_token[OF number_char_show_fixed fixed_point2_show_fixed comma]
  show ?thesis
    unfolding read_event_def event_text_shape
    apply (subst expect_prefix)
    apply (simp only: bind.bind_lunit read_string_quoted[OF assms(1)] prod.case)
    apply (subst expect_prefix)
    apply (simp only: bind.bind_lunit num prod.case)
    apply (simp add: expect_def num read_string_quoted[OF assms(2)] read_string_quoted[OF st])
    done
qed

subsection \<open>The characters of the fields\<close>

text \<open>Whatever holds of the digits and of the punctuation of a field holds of all its characters.\<close>

lemma list_all_show_nat:
  assumes "\<And>c. is_digit c \<Longrightarrow> P c"
  shows "list_all P (show_nat n)"
  using show_nat_digits[of n] assms by (simp add: list_all_iff)

lemma list_all_show_int:
  assumes "\<And>c. is_digit c \<Longrightarrow> P c" "P (CHR ''-'')"
  shows "list_all P (show_int i)"
  using list_all_show_nat[of P, OF assms(1)] assms(2) by (simp add: show_int_def)

lemma list_all_setw_fill: "P c \<Longrightarrow> list_all P s \<Longrightarrow> list_all P (setw_fill n c s)"
  by (auto simp: setw_fill_def list_all_iff)

lemma digit_zero: "is_digit (CHR ''0'')"
  by (simp add: is_digit_def)

lemma list_all_two_digits:
  assumes "\<And>c. is_digit c \<Longrightarrow> P c" "P (CHR ''-'')"
  shows "list_all P (two_digits i)"
  unfolding two_digits_def
  by (rule list_all_setw_fill[OF assms(1)[OF digit_zero] list_all_show_int[of P, OF assms]])

lemma list_all_put_time:
  assumes "\<And>c. is_digit c \<Longrightarrow> P c" "P (CHR ''-'')" "P (CHR ''T'')" "P (CHR '':'')"
  shows "list_all P (put_time t)"
  unfolding put_time_def
  using list_all_two_digits[of P, OF assms(1,2)] list_all_show_int[of P, OF assms(1,2)] assms(2-4)
  by simp

lemma list_all_timestamp_of:
  assumes "\<And>c. is_digit c \<Longrightarrow> P c" "P (CHR ''-'')" "P (CHR ''T'')" "P (CHR '':'')"
    "P (CHR ''.'')" "P (CHR ''Z'')"
  shows "list_all P (timestamp_of now)"
  unfolding timestamp_of_def Let_def
  using list_all_put_time[of P, OF assms(1-4)] assms(5,6)
    list_all_setw_fill[OF assms(1)[OF digit_zero] list_all_show_int[of P, OF assms(1,2)]]
  by simp

lemma list_all_show_fixed:
  assumes "\<And>c. is_digit c \<Longrightarrow> P c" "P (CHR ''-'')" "P (CHR ''.'')"
  shows "list_all P (show_fixed 2 x)"
  using number_char_show_fixed[of x] assms by (auto simp: list_all_iff number_char_def)

lemma list_all_event_text:
  assumes "list_all P sid" "list_all P ts" "\<And>c. is_digit c \<Longrightarrow> P c"
    and \<open>list_all P ''{}",:_-.abcdefgilmnoprstuv''\<close>
  shows "list_all P (event_text sid v l ts f)"
proof -
  have "list_all P (show_fixed 2 v)" "list_all P (show_fixed 2 l)"
    using assms(4) by (simp_all add: list_all_show_fixed[of P, OF assms(3)])
  then show ?thesis using assms(1,2,4) by (simp add: event_text_def)
qed

lemma digit_not_dquote: "is_digit c \<Longrightarrow> c \<noteq> dquote"
  by (auto simp: is_digit_def dquote_def)

lemma digit_not_newline: "is_digit c \<Longrightarrow> c \<noteq> newline"
  by (auto simp: is_digit_def newline_def)

lemma timestamp_of_no_dquote: "dquote \<notin> set (timestamp_of now)"
  using list_all_timestamp_of[of "\<lambda>c. c \<noteq> dquote" now] digit_not_dquote
  by (auto simp: list_all_iff dquote_def)

lemma sector_no_dquote: "sid \<in> set SECTORS \<Longrightarrow> dquote \<notin> set sid"
  by (auto simp: SECTORS_def dquote_def)

lemma sector_no_newline: "sid \<in> set SECTORS \<Longrightarrow> list_all (\<lambda>c. c \<noteq> newline) sid"
  by (auto simp: SECTORS_def newline_def)

lemma emitted_text_no_newline:
  assumes "sid \<in> set SECTORS"
  shows "newline \<notin> set (emitted_text sid g now)"
proof -
  have "list_all (\<lambda>c. c \<noteq> newline) (timestamp_of now)"
    by (rule list_all_timestamp_of) (simp_all add: digit_not_newline, simp_all add: newline_def)
  then have "list_all (\<lambda>c. c \<noteq> newline) (emitted_text sid g now)"
    unfolding emitted_text_def
    by (intro list_all_event_text sector_no_newline[OF assms])
      (simp_all add: digit_not_newline, simp add: newline_def)
  then show ?thesis by (auto simp: list_all_iff)
qed

text \<open>One call writes one line, and the line reads back as the values the call drew.\<close>

lemma readings_emitPowerEvent:
  assumes "sid \<in> set SECTORS"
  shows "readings (new_events w (snd (emitPowerEvent sid g w))) =
    [Some \<lparr>f_sector_id = sid, f_voltage = show_fixed 2 (voltage_drawn g),
           f_load = show_fixed 2 (load_drawn g), f_timestamp = timestamp_of (shd (clock w)),
           f_status = (if voltage_drawn g < 50.0 then ''failure'' else ''normal'')\<rparr>]"
proof -
  have "lines_written Cout (new_events w (snd (emitPowerEvent sid g w))) = [emitted_text sid g (shd (clock w))]"
    using split_lines_line[OF emitted_text_no_newline[OF assms, of g "shd (clock w)"], of "[]" "[]"]
    by (simp add: lines_written_def emitPowerEvent_new_events)
  then show ?thesis
    unfolding readings_def emitted_text_def
    by (simp add: read_event_event_text[OF sector_no_dquote[OF assms] timestamp_of_no_dquote])
qed

subsection \<open>A concrete call\<close>

text \<open>
  The engine is about to deliver 0, \<open>2^30\<close>, 0, \<open>2^31\<close> (the draws 32.5 and 50.0) and the
  clock reads 2026-10-30T04:08:53.123456789Z.
\<close>

lemma draws_example:
  "voltage_drawn (0 ## 1073741824 ## 0 ## 2147483648 ## sconst 0) = 65 / 2"
  "load_drawn (0 ## 1073741824 ## 0 ## 2147483648 ## sconst 0) = 50"
  by (simp_all add: voltage_drawn_def load_drawn_def uniform_real_distribution_def
      generate_canonical_def Let_def LOAD_MIN_def LOAD_MAX_def round_to_double_examples)

lemma show_fixed_examples:
  "show_fixed 2 (65 / 2) = ''32.50''" "show_fixed 2 50 = ''50.00''"
  by code_simp+

lemma timestamp_of_example: "timestamp_of 1793333333123456789 = ''2026-10-30T04:08:53.123Z''"
  by code_simp

lemma sector_1: "''sector-1'' \<in> set SECTORS"
  by (simp add: SECTORS_def)

lemma readings_example:
  "readings (new_events \<lparr>clock = sconst 1793333333123456789, trace = []\<rparr>
     (snd (emitPowerEvent ''sector-1'' (0 ## 1073741824 ## 0 ## 2147483648 ## sconst 0)
        \<lparr>clock = sconst 1793333333123456789, trace = []\<rparr>)))
   = [Some \<lparr>f_sector_id = ''sector-1'', f_voltage = ''32.50'', f_load = ''50.00'',
        f_timestamp = ''2026-10-30T04:08:53.123Z'', f_status = ''failure''\<rparr>]"
  by (simp add: readings_emitPowerEvent[OF sector_1] draws_example show_fixed_examples
      timestamp_of_example)

subsection \<open>One call, for any distribution\<close>

lemma event_text_no_newline:
  assumes "sid \<in> set SECTORS"
  shows "newline \<notin> set (event_text sid v l (timestamp_of now) f)"
proof -
  have "list_all (\<lambda>c. c \<noteq> newline) (timestamp_of now)"
    by (rule list_all_timestamp_of) (simp_all add: digit_not_newline, simp_all add: newline_def)
  then have "list_all (\<lambda>c. c \<noteq> newline) (event_text sid v l (timestamp_of now) f)"
    by (intro list_all_event_text sector_no_newline[OF assms])
      (simp_all add: digit_not_newline, simp add: newline_def)
  then show ?thesis by (auto simp: list_all_iff)
qed

lemma emitPowerEvent_with_new_events:
  "new_events w (snd (emitPowerEvent_with distr sid g w)) =
     [Write Cout (event_text sid (fst (distr 0.0 130.0 g))
          (fst (distr LOAD_MIN LOAD_MAX (snd (distr 0.0 130.0 g))))
          (timestamp_of (shd (clock w))) (fst (distr 0.0 130.0 g) < 50.0) @ [newline]),
      Flush Cout, Flush Cout]"
  by (auto simp: new_events_def emitPowerEvent_with_def getCurrentTimestamp_def Let_def put_line_def
      put_def flush_def split: prod.splits)

text \<open>The line of one call reads back as the values that the distribution returned.\<close>

lemma readings_emitPowerEvent_with:
  assumes "sid \<in> set SECTORS"
  shows "readings (new_events w (snd (emitPowerEvent_with distr sid g w))) =
    [Some \<lparr>f_sector_id = sid, f_voltage = show_fixed 2 (fst (distr 0.0 130.0 g)),
           f_load = show_fixed 2 (fst (distr LOAD_MIN LOAD_MAX (snd (distr 0.0 130.0 g)))),
           f_timestamp = timestamp_of (shd (clock w)),
           f_status = (if fst (distr 0.0 130.0 g) < 50.0 then ''failure'' else ''normal'')\<rparr>]"
  unfolding readings_def lines_written_def emitPowerEvent_with_new_events
  using split_lines_line[OF event_text_no_newline[OF assms], of "[]" _ _ _ _ "[]"]
  by (simp add: read_event_event_text[OF sector_no_dquote[OF assms] timestamp_of_no_dquote])

lemma show_fixed_scenarios:
  "show_fixed 2 50 = ''50.00''" "show_fixed 2 30 = ''30.00''" "show_fixed 2 75 = ''75.00''"
  by code_simp+

text \<open>
  A draw of exactly 50.0. The engine delivers 1982292481 and 1651910498: their sum
  \<open>g\<^sub>0 + g\<^sub>1 * 2^32\<close> has 63 bits and is rounded up to a double, and 130 times the
  canonical variate, a little below 50, is rounded to 50.0.
\<close>

lemma round_to_double_sum_example:
  "round_to_double 7094901566811365889 = 7094901566811366400"
proof -
  have r: "round_half_even (7094901566811365889 / 2 ^ 10) = 6928614811339225"
    by (simp add: round_half_even_def Let_def)
  have "(2 :: real) ^ 52 \<le> 7094901566811365889 / 2 ^ 10" by simp
  moreover have "(7094901566811365889 :: real) / 2 ^ 10 < 2 ^ 53" by simp
  ultimately have "round_to_double 7094901566811365889
      = of_int (round_half_even (7094901566811365889 / 2 ^ 10)) * 2 ^ 10"
    by (rule round_to_double_large)
  then show ?thesis unfolding r by simp
qed

lemma round_to_double_product_example:
  "round_to_double (7094901566811366400 / 2 ^ 64 * 130) = 50"
proof -
  have r: "round_half_even (7094901566811366400 / 2 ^ 64 * 130 * 2 ^ 47) = 7036874417766400"
    by (simp add: round_half_even_def Let_def)
  have "47 \<le> denorm_min_exp" by (simp add: denorm_min_exp_def)
  moreover have "(2 :: real) ^ 52 \<le> 7094901566811366400 / 2 ^ 64 * 130 * 2 ^ 47" by simp
  moreover have "(7094901566811366400 :: real) / 2 ^ 64 * 130 * 2 ^ 47 < 2 ^ 53" by simp
  ultimately have "round_to_double (7094901566811366400 / 2 ^ 64 * 130)
      = of_int (round_half_even (7094901566811366400 / 2 ^ 64 * 130 * 2 ^ 47)) / 2 ^ 47"
    by (rule round_to_double_small)
  then show ?thesis unfolding r by simp
qed

lemma generate_canonical_example:
  "generate_canonical (1982292481 ## 1651910498 ## sconst 0)
     = (7094901566811366400 / 2 ^ 64, sconst 0)"
proof -
  have "real (unat (1982292481 :: 32 word)) + real (unat (1651910498 :: 32 word)) * 2 ^ 32
      = 7094901566811365889" by simp
  then show ?thesis
    unfolding generate_canonical_def Let_def
    by (simp add: round_to_double_sum_example)
qed

lemma voltage_drawn_50:
  "voltage_drawn (1982292481 ## 1651910498 ## sconst 0) = 50"
  unfolding voltage_drawn_def uniform_real_distribution_def generate_canonical_example
  using round_to_double_product_example
  by (simp add: round_to_double_examples)

text \<open>
  C1. Whatever value the distribution returns as the voltage of a call of
  \<^verbatim>\<open>emitPowerEvent\<close> for a configured sector, the line of the call is one Reading whose
  voltage field is the rendering of that value and whose status is \<open>failure\<close> if and only if
  the value is strictly less than 50.0, and \<open>normal\<close> if and only if it is 50.0 or above.
  In particular this holds of the program, where the value is the draw of the library's
  distribution from the engine.
\<close>

theorem status_failure_iff_voltage_below_50:
  assumes "sector_id \<in> set SECTORS"
  shows "(\<exists>r. readings (new_events w (snd (emitPowerEvent_with distr sector_id g w))) = [Some r]
      \<and> f_voltage r = show_fixed 2 (fst (distr 0.0 130.0 g))
      \<and> (f_status r = ''failure'') = (fst (distr 0.0 130.0 g) < 50.0)
      \<and> (f_status r = ''normal'') = (50.0 \<le> fst (distr 0.0 130.0 g)))
    \<and> (\<exists>r. readings (new_events w (snd (emitPowerEvent sector_id e w))) = [Some r]
      \<and> f_voltage r = show_fixed 2 (fst (uniform_real_distribution 0.0 130.0 e))
      \<and> (f_status r = ''failure'') = (fst (uniform_real_distribution 0.0 130.0 e) < 50.0)
      \<and> (f_status r = ''normal'') = (50.0 \<le> fst (uniform_real_distribution 0.0 130.0 e)))"
  unfolding emitPowerEvent_def readings_emitPowerEvent_with[OF assms] by auto

text \<open>
  The draws forced to 50.0, to 30.0 and to 75.0 (the distribution hands out the values
  queued in the generator state), and the program's own distribution at an engine state
  where it draws 50.0.
\<close>

theorem status_failure_iff_voltage_below_50_witness:
  "''sector-1'' \<in> set SECTORS
   \<and> (\<exists>r. readings (new_events \<lparr>clock = sconst 1793333333123456789, trace = []\<rparr>
             (snd (emitPowerEvent_with (\<lambda>a b q. (shd q, stl q)) ''sector-1'' (50 ## 25 ## sconst 0)
                \<lparr>clock = sconst 1793333333123456789, trace = []\<rparr>))) = [Some r]
        \<and> f_voltage r = ''50.00'' \<and> f_status r = ''normal'')
   \<and> (\<exists>r. readings (new_events \<lparr>clock = sconst 1793333333123456789, trace = []\<rparr>
             (snd (emitPowerEvent_with (\<lambda>a b q. (shd q, stl q)) ''sector-1'' (30 ## 25 ## sconst 0)
                \<lparr>clock = sconst 1793333333123456789, trace = []\<rparr>))) = [Some r]
        \<and> f_voltage r = ''30.00'' \<and> f_status r = ''failure'')
   \<and> (\<exists>r. readings (new_events \<lparr>clock = sconst 1793333333123456789, trace = []\<rparr>
             (snd (emitPowerEvent_with (\<lambda>a b q. (shd q, stl q)) ''sector-1'' (75 ## 25 ## sconst 0)
                \<lparr>clock = sconst 1793333333123456789, trace = []\<rparr>))) = [Some r]
        \<and> f_voltage r = ''75.00'' \<and> f_status r = ''normal'')
   \<and> fst (uniform_real_distribution 0.0 130.0 (1982292481 ## 1651910498 ## sconst 0)) = 50.0
   \<and> (\<exists>r. readings (new_events \<lparr>clock = sconst 1793333333123456789, trace = []\<rparr>
             (snd (emitPowerEvent ''sector-1'' (1982292481 ## 1651910498 ## sconst 0)
                \<lparr>clock = sconst 1793333333123456789, trace = []\<rparr>))) = [Some r]
        \<and> f_voltage r = ''50.00'' \<and> f_status r = ''normal'')"
proof -
  let ?w = "\<lparr>clock = sconst (1793333333123456789 :: int), trace = []\<rparr>"
  let ?d = "\<lambda>(a :: real) (b :: real) (q :: real stream). (shd q, stl q)"
  let ?g = "1982292481 ## 1651910498 ## sconst (0 :: 32 word)"
  note t = conjunct1[OF status_failure_iff_voltage_below_50[OF sector_1, of ?w ?d]]
  have 1: "\<exists>r. readings (new_events ?w (snd (emitPowerEvent_with ?d ''sector-1'' (50 ## 25 ## sconst 0) ?w)))
      = [Some r] \<and> f_voltage r = ''50.00'' \<and> f_status r = ''normal''"
    using t[of "50 ## 25 ## sconst 0"] by (simp add: show_fixed_scenarios) blast
  have 2: "\<exists>r. readings (new_events ?w (snd (emitPowerEvent_with ?d ''sector-1'' (30 ## 25 ## sconst 0) ?w)))
      = [Some r] \<and> f_voltage r = ''30.00'' \<and> f_status r = ''failure''"
    using t[of "30 ## 25 ## sconst 0"] by (simp add: show_fixed_scenarios) blast
  have 3: "\<exists>r. readings (new_events ?w (snd (emitPowerEvent_with ?d ''sector-1'' (75 ## 25 ## sconst 0) ?w)))
      = [Some r] \<and> f_voltage r = ''75.00'' \<and> f_status r = ''normal''"
    using t[of "75 ## 25 ## sconst 0"] by (simp add: show_fixed_scenarios) blast
  have 4: "fst (uniform_real_distribution 0.0 130.0 ?g) = 50.0"
    using voltage_drawn_50 by (simp add: voltage_drawn_def)
  have 5: "\<exists>r. readings (new_events ?w (snd (emitPowerEvent ''sector-1'' ?g ?w)))
      = [Some r] \<and> f_voltage r = ''50.00'' \<and> f_status r = ''normal''"
    using conjunct2[OF status_failure_iff_voltage_below_50[OF sector_1, of ?w _ _ ?g]]
    unfolding 4 by (simp add: show_fixed_scenarios) blast
  from sector_1 1 2 3 4 5 show ?thesis by blast
qed

subsection \<open>The range of the draws\<close>

lemma generate_canonical_range:
  "0 \<le> fst (generate_canonical g) \<and> fst (generate_canonical g) < 1"
proof -
  define sum where "sum = round_to_double (real (unat (shd g)) + real (unat (shd (stl g))) * 2 ^ 32)"
  have "0 \<le> sum" unfolding sum_def
    by (intro round_to_double_nonneg add_nonneg_nonneg mult_nonneg_nonneg of_nat_0_le_iff) simp
  then have "0 \<le> sum / 2 ^ 64" by simp
  moreover have "fst (generate_canonical g) = (if 1 \<le> sum / 2 ^ 64 then 1 - 1 / 2 ^ 53 else sum / 2 ^ 64)"
    by (simp add: generate_canonical_def Let_def sum_def)
  ultimately show ?thesis by simp
qed

text \<open>The draws over a range from 0 to a double \<open>K * 2^t\<close> lie in the range.\<close>

lemma uniform_real_distribution_range:
  assumes "0 < K" "K < 2 ^ 53"
  shows "0 \<le> fst (uniform_real_distribution 0 (of_int K * 2 ^ t) g)
    \<and> fst (uniform_real_distribution 0 (of_int K * 2 ^ t) g) \<le> of_int K * 2 ^ t"
proof -
  define b :: real where "b = of_int K * 2 ^ t"
  obtain u g' where u: "generate_canonical g = (u, g')" by (cases "generate_canonical g")
  with generate_canonical_range[of g] have r: "0 \<le> u" "u < 1" by simp_all
  have b0: "0 \<le> b" using assms(1) by (simp add: b_def)
  have rb: "round_to_double b = b"
    using round_to_double_int[OF assms, of t] by (simp add: b_def)
  have 1: "0 \<le> u * b" using r(1) b0 by simp
  have "u * b \<le> 1 * b" using r(2) b0 by (intro mult_right_mono) simp_all
  then have 2: "u * b \<le> of_int K * 2 ^ t" by (simp add: b_def)
  have 3: "0 \<le> round_to_double (u * b)" using 1 by (rule round_to_double_nonneg)
  have 4: "round_to_double (u * b) \<le> of_int K * 2 ^ t"
    using 1 2 assms by (rule round_to_double_le)
  have 5: "0 \<le> round_to_double (round_to_double (u * b))"
    using 3 by (rule round_to_double_nonneg)
  have 6: "round_to_double (round_to_double (u * b)) \<le> of_int K * 2 ^ t"
    using 3 4 assms by (rule round_to_double_le)
  have "fst (uniform_real_distribution 0 b g) = round_to_double (round_to_double (u * b))"
    by (simp add: uniform_real_distribution_def u rb)
  with 5 6 show ?thesis by (simp add: b_def)
qed

lemma uniform_real_distribution_outputs:
  "shd g' = shd g \<Longrightarrow> shd (stl g') = shd (stl g) \<Longrightarrow>
   fst (uniform_real_distribution a b g') = fst (uniform_real_distribution a b g)"
  by (simp add: uniform_real_distribution_def generate_canonical_def Let_def)

lemma voltage_drawn_range: "0 \<le> voltage_drawn g \<and> voltage_drawn g \<le> 130.0"
  using uniform_real_distribution_range[of 65 1 g] by (simp add: voltage_drawn_def)

lemma load_drawn_range: "0 \<le> load_drawn g \<and> load_drawn g \<le> 100.0"
  using uniform_real_distribution_range[of 25 2 "snd (uniform_real_distribution 0.0 130.0 g)"]
  by (simp add: load_drawn_def LOAD_MIN_def LOAD_MAX_def)

lemma load_drawn_sdrop:
  "load_drawn g = fst (uniform_real_distribution LOAD_MIN LOAD_MAX (stl (stl g)))"
  by (simp add: load_drawn_def uniform_real_distribution_snd)

text \<open>
  C2. For every Reading that \<^verbatim>\<open>emitPowerEvent\<close> emits for a configured sector, the voltage
  on the line is the rendering of a drawn value between 0.0 and 130.0 and the load that of a
  drawn value between 0.0 and 100.0. Each value is a draw of the uniform distribution over its
  own range; the two draws are separate: the voltage is determined by the first two outputs of
  the engine, the load by the two outputs after them.
\<close>

theorem voltage_and_load_in_range:
  assumes "sector_id \<in> set SECTORS"
  shows "\<exists>r. readings (new_events w (snd (emitPowerEvent sector_id g w))) = [Some r]
    \<and> f_voltage r = show_fixed 2 (voltage_drawn g)
    \<and> 0.0 \<le> voltage_drawn g \<and> voltage_drawn g \<le> 130.0
    \<and> f_load r = show_fixed 2 (load_drawn g)
    \<and> 0.0 \<le> load_drawn g \<and> load_drawn g \<le> 100.0
    \<and> voltage_drawn g = fst (uniform_real_distribution 0.0 130.0 g)
    \<and> load_drawn g = fst (uniform_real_distribution LOAD_MIN LOAD_MAX (stl (stl g)))
    \<and> (\<forall>g'. shd g' = shd g \<and> shd (stl g') = shd (stl g) \<longrightarrow> voltage_drawn g' = voltage_drawn g)
    \<and> (\<forall>g'. shd (stl (stl g')) = shd (stl (stl g))
            \<and> shd (stl (stl (stl g'))) = shd (stl (stl (stl g)))
          \<longrightarrow> load_drawn g' = load_drawn g)"
proof -
  have v: "\<forall>g'. shd g' = shd g \<and> shd (stl g') = shd (stl g) \<longrightarrow> voltage_drawn g' = voltage_drawn g"
    unfolding voltage_drawn_def using uniform_real_distribution_outputs by blast
  have l: "\<forall>g'. shd (stl (stl g')) = shd (stl (stl g))
            \<and> shd (stl (stl (stl g'))) = shd (stl (stl (stl g)))
          \<longrightarrow> load_drawn g' = load_drawn g"
    unfolding load_drawn_sdrop using uniform_real_distribution_outputs by blast
  have r: "0.0 \<le> voltage_drawn g" "voltage_drawn g \<le> 130.0" "0.0 \<le> load_drawn g"
    "load_drawn g \<le> 100.0"
    using voltage_drawn_range[of g] load_drawn_range[of g] by simp_all
  define R where "R = \<lparr>f_sector_id = sector_id, f_voltage = show_fixed 2 (voltage_drawn g),
    f_load = show_fixed 2 (load_drawn g), f_timestamp = timestamp_of (shd (clock w)),
    f_status = (if voltage_drawn g < 50.0 then ''failure'' else ''normal'')\<rparr>"
  have "readings (new_events w (snd (emitPowerEvent sector_id g w))) = [Some R]"
    unfolding R_def by (rule readings_emitPowerEvent[OF assms])
  moreover have "f_voltage R = show_fixed 2 (voltage_drawn g)" "f_load R = show_fixed 2 (load_drawn g)"
    by (simp_all add: R_def)
  moreover note r v l load_drawn_sdrop[of g] voltage_drawn_def[of g]
  ultimately show ?thesis by blast
qed

theorem voltage_and_load_in_range_witness:
  "''sector-1'' \<in> set SECTORS
   \<and> (\<exists>r. readings (new_events \<lparr>clock = sconst 1793333333123456789, trace = []\<rparr>
             (snd (emitPowerEvent ''sector-1'' (0 ## 1073741824 ## 0 ## 2147483648 ## sconst 0)
                \<lparr>clock = sconst 1793333333123456789, trace = []\<rparr>))) = [Some r]
        \<and> f_voltage r = show_fixed 2 (voltage_drawn (0 ## 1073741824 ## 0 ## 2147483648 ## sconst 0))
        \<and> f_load r = show_fixed 2 (load_drawn (0 ## 1073741824 ## 0 ## 2147483648 ## sconst 0))
        \<and> f_voltage r = ''32.50'' \<and> f_load r = ''50.00'')
   \<and> 0.0 \<le> voltage_drawn (0 ## 1073741824 ## 0 ## 2147483648 ## sconst 0)
   \<and> voltage_drawn (0 ## 1073741824 ## 0 ## 2147483648 ## sconst 0) \<le> 130.0
   \<and> 0.0 \<le> load_drawn (0 ## 1073741824 ## 0 ## 2147483648 ## sconst 0)
   \<and> load_drawn (0 ## 1073741824 ## 0 ## 2147483648 ## sconst 0) \<le> 100.0
   \<and> voltage_drawn (0 ## 1073741824 ## 0 ## 2147483648 ## sconst 0) = 65 / 2
   \<and> load_drawn (0 ## 1073741824 ## 0 ## 2147483648 ## sconst 0) = 50"
proof -
  let ?g = "0 ## 1073741824 ## 0 ## 2147483648 ## sconst (0 :: 32 word)"
  let ?w = "\<lparr>clock = sconst (1793333333123456789 :: int), trace = []\<rparr>"
  obtain r where r: "readings (new_events ?w (snd (emitPowerEvent ''sector-1'' ?g ?w))) = [Some r]"
    "f_voltage r = show_fixed 2 (voltage_drawn ?g)" "f_load r = show_fixed 2 (load_drawn ?g)"
    "0.0 \<le> voltage_drawn ?g" "voltage_drawn ?g \<le> 130.0"
    "0.0 \<le> load_drawn ?g" "load_drawn ?g \<le> 100.0"
    using voltage_and_load_in_range[OF sector_1, of ?w ?g] by blast
  from r(2,3) have "f_voltage r = ''32.50''" "f_load r = ''50.00''"
    by (simp_all add: draws_example show_fixed_examples)
  with r sector_1 draws_example show ?thesis by blast
qed

subsection \<open>The shape of a line\<close>

lemma digit_not_whitespace: "is_digit c \<Longrightarrow> \<not> whitespace c"
  by (auto simp: is_digit_def whitespace_def newline_def)

lemma emitted_text_no_whitespace:
  assumes "sid \<in> set SECTORS"
  shows "list_all (\<lambda>c. \<not> whitespace c) (emitted_text sid g now)"
proof -
  have sid: "list_all (\<lambda>c. \<not> whitespace c) sid"
    using assms by (auto simp: SECTORS_def whitespace_def newline_def)
  have ts: "list_all (\<lambda>c. \<not> whitespace c) (timestamp_of now)"
    by (rule list_all_timestamp_of)
      (simp_all add: digit_not_whitespace, simp_all add: whitespace_def newline_def)
  show ?thesis
    unfolding emitted_text_def
    by (intro list_all_event_text sid ts)
      (simp_all add: digit_not_whitespace, simp add: whitespace_def newline_def)
qed

lemma event_text_frame:
  \<open>event_text sid v l ts f =
     ''{"sector_id":"'' @ sid @ ''","voltage":'' @ show_fixed 2 v @ '',"load":'' @ show_fixed 2 l
     @ '',"timestamp":"'' @ ts @ ''","status":"'' @ (if f then ''failure'' else ''normal'') @ ''"}''\<close>
  by (simp add: event_text_def)

text \<open>
  C4. The characters that \<^verbatim>\<open>emitPowerEvent\<close> writes for a configured sector are one line
  and its newline. The line is one object with exactly the keys \<open>sector_id\<close>, \<open>voltage\<close>,
  \<open>load\<close>, \<open>timestamp\<close>, \<open>status\<close> in this order: it reads back against the schema and it is
  the frame below around the five values. Voltage and load are in fixed-point notation with
  exactly two fractional digits, and the line holds no whitespace character at all.
\<close>

theorem line_is_one_object_with_five_keys:
  assumes "sector_id \<in> set SECTORS"
  shows \<open>\<exists>line r.
      new_events w (snd (emitPowerEvent sector_id g w))
        = [Write Cout (line @ [newline]), Flush Cout, Flush Cout]
    \<and> lines_written Cout (new_events w (snd (emitPowerEvent sector_id g w))) = [line]
    \<and> read_event line = Some r
    \<and> line = ''{"sector_id":"'' @ f_sector_id r @ ''","voltage":'' @ f_voltage r
         @ '',"load":'' @ f_load r @ '',"timestamp":"'' @ f_timestamp r
         @ ''","status":"'' @ f_status r @ ''"}''
    \<and> fixed_point2 (f_voltage r) \<and> fixed_point2 (f_load r)
    \<and> list_all (\<lambda>c. \<not> whitespace c) line\<close>
proof -
  define line where "line = emitted_text sector_id g (shd (clock w))"
  define R where "R = \<lparr>f_sector_id = sector_id, f_voltage = show_fixed 2 (voltage_drawn g),
    f_load = show_fixed 2 (load_drawn g), f_timestamp = timestamp_of (shd (clock w)),
    f_status = (if voltage_drawn g < 50.0 then ''failure'' else ''normal'')\<rparr>"
  have 1: "new_events w (snd (emitPowerEvent sector_id g w))
      = [Write Cout (line @ [newline]), Flush Cout, Flush Cout]"
    unfolding line_def by (rule emitPowerEvent_new_events)
  have 2: "lines_written Cout (new_events w (snd (emitPowerEvent sector_id g w))) = [line]"
    unfolding 1 line_def
    using split_lines_line[OF emitted_text_no_newline[OF assms, of g "shd (clock w)"], of "[]" "[]"]
    by (simp add: lines_written_def)
  have 3: "read_event line = Some R"
    unfolding line_def emitted_text_def R_def
    by (rule read_event_event_text[OF sector_no_dquote[OF assms] timestamp_of_no_dquote])
  have 4: \<open>line = ''{"sector_id":"'' @ f_sector_id R @ ''","voltage":'' @ f_voltage R
         @ '',"load":'' @ f_load R @ '',"timestamp":"'' @ f_timestamp R
         @ ''","status":"'' @ f_status R @ ''"}''\<close>
    unfolding line_def emitted_text_def event_text_frame R_def by simp
  have 5: "fixed_point2 (f_voltage R)" "fixed_point2 (f_load R)"
    by (simp_all add: R_def fixed_point2_show_fixed)
  have 6: "list_all (\<lambda>c. \<not> whitespace c) line"
    unfolding line_def by (rule emitted_text_no_whitespace[OF assms])
  from 1 2 3 4 5 6 show ?thesis by blast
qed

theorem line_is_one_object_with_five_keys_witness:
  \<open>''sector-1'' \<in> set SECTORS
   \<and> (\<exists>line r.
      new_events \<lparr>clock = sconst 1793333333123456789, trace = []\<rparr>
          (snd (emitPowerEvent ''sector-1'' (0 ## 1073741824 ## 0 ## 2147483648 ## sconst 0)
             \<lparr>clock = sconst 1793333333123456789, trace = []\<rparr>))
        = [Write Cout (line @ [newline]), Flush Cout, Flush Cout]
    \<and> read_event line = Some r
    \<and> fixed_point2 (f_voltage r) \<and> fixed_point2 (f_load r)
    \<and> list_all (\<lambda>c. \<not> whitespace c) line
    \<and> line = ''{"sector_id":"sector-1","voltage":32.50,"load":50.00,''
         @ ''"timestamp":"2026-10-30T04:08:53.123Z","status":"failure"}'')\<close>
proof -
  let ?g = "0 ## 1073741824 ## 0 ## 2147483648 ## sconst (0 :: 32 word)"
  let ?w = "\<lparr>clock = sconst (1793333333123456789 :: int), trace = []\<rparr>"
  obtain line r where l:
    "new_events ?w (snd (emitPowerEvent ''sector-1'' ?g ?w))
       = [Write Cout (line @ [newline]), Flush Cout, Flush Cout]"
    "read_event line = Some r" "fixed_point2 (f_voltage r)" "fixed_point2 (f_load r)"
    "list_all (\<lambda>c. \<not> whitespace c) line"
    using line_is_one_object_with_five_keys[OF sector_1, of ?w ?g] by blast
  from l(1) have "line = emitted_text ''sector-1'' ?g 1793333333123456789"
    by (simp add: emitPowerEvent_new_events)
  then have \<open>line = ''{"sector_id":"sector-1","voltage":32.50,"load":50.00,''
         @ ''"timestamp":"2026-10-30T04:08:53.123Z","status":"failure"}''\<close>
    by (simp add: emitted_text_def event_text_def draws_example show_fixed_examples
        timestamp_of_example)
  with l sector_1 show ?thesis by blast
qed

subsection \<open>Rounding at the threshold\<close>

lemma show_fixed_just_below_50:
  assumes "49.995 \<le> v" "v < 50.0"
  shows "show_fixed 2 v = ''50.00''"
proof -
  have f: "\<lfloor>v * 100\<rfloor> = 4999"
    using assms by (intro floor_unique) simp_all
  have "round_half_even (v * 100) = 5000"
    using assms unfolding round_half_even_def Let_def f by simp
  moreover have "\<bar>v\<bar> = v" "\<not> v < 0" using assms by simp_all
  ultimately show ?thesis
    by (simp add: show_fixed_def Let_def setw_fill_def show_nat.simps[of 50] show_nat.simps[of 5]
        show_nat.simps[of 0] digit_char_def)
qed

lemma voltage_drawn_example:
  "voltage_drawn (0 ## 1651834880 ## sconst 0) = 1638325 / 32768"
  by (simp add: voltage_drawn_def uniform_real_distribution_def generate_canonical_def Let_def
      round_to_double_examples)

text \<open>
  C5. There are engine states whose voltage draw \<open>v\<close> satisfies \<open>49.995 \<le> v < 50.0\<close>, and for
  every such draw the emitted line shows the voltage as \<open>50.00\<close> while its status is
  \<open>failure\<close>: the status follows the drawn value, not the two-decimal rendering on the line.
\<close>

theorem voltage_rendered_50_with_status_failure:
  "(\<exists>g. 49.995 \<le> voltage_drawn g \<and> voltage_drawn g < 50.0)
   \<and> (\<forall>g w sector_id.
        sector_id \<in> set SECTORS \<and> 49.995 \<le> voltage_drawn g \<and> voltage_drawn g < 50.0 \<longrightarrow>
        (\<exists>r. readings (new_events w (snd (emitPowerEvent sector_id g w))) = [Some r]
           \<and> f_voltage r = ''50.00'' \<and> f_status r = ''failure''))"
proof (intro conjI allI impI)
  have "49.995 \<le> voltage_drawn (0 ## 1651834880 ## sconst 0)
      \<and> voltage_drawn (0 ## 1651834880 ## sconst 0) < 50.0"
    unfolding voltage_drawn_example by simp
  then show "\<exists>g. 49.995 \<le> voltage_drawn g \<and> voltage_drawn g < 50.0" by blast
next
  fix g w sector_id
  assume a: "sector_id \<in> set SECTORS \<and> 49.995 \<le> voltage_drawn g \<and> voltage_drawn g < 50.0"
  then have "show_fixed 2 (voltage_drawn g) = ''50.00''"
    by (intro show_fixed_just_below_50) simp_all
  with a show "\<exists>r. readings (new_events w (snd (emitPowerEvent sector_id g w))) = [Some r]
           \<and> f_voltage r = ''50.00'' \<and> f_status r = ''failure''"
    unfolding readings_emitPowerEvent[of sector_id w g, OF conjunct1[OF a]] by simp
qed

theorem voltage_rendered_50_with_status_failure_witness:
  "''sector-1'' \<in> set SECTORS
   \<and> 49.995 \<le> voltage_drawn (0 ## 1651834880 ## sconst 0)
   \<and> voltage_drawn (0 ## 1651834880 ## sconst 0) < 50.0
   \<and> (\<exists>r. readings (new_events \<lparr>clock = sconst 1793333333123456789, trace = []\<rparr>
            (snd (emitPowerEvent ''sector-1'' (0 ## 1651834880 ## sconst 0)
                   \<lparr>clock = sconst 1793333333123456789, trace = []\<rparr>))) = [Some r]
         \<and> f_voltage r = ''50.00'' \<and> f_status r = ''failure'')"
proof -
  have h: "''sector-1'' \<in> set SECTORS
     \<and> 49.995 \<le> voltage_drawn (0 ## 1651834880 ## sconst 0)
     \<and> voltage_drawn (0 ## 1651834880 ## sconst 0) < 50.0"
    unfolding voltage_drawn_example by (simp add: SECTORS_def)
  from conjunct2[OF voltage_rendered_50_with_status_failure, rule_format, OF h] h
  show ?thesis by blast
qed

subsection \<open>One iteration of the loop\<close>

lemma startup_trace: "trace (startup w) = trace w @ startup_events"
  by (simp add: startup_def startup_events_def put_line_def put_def flush_def EVENT_INTERVAL_SEC_def
      show_int_def show_nat.simps digit_char_def)

lemma startup_clock: "clock (startup w) = clock w"
  by (simp add: startup_def put_line_def put_def flush_def)

lemma sector_loop_unrolled:
  "sector_loop 0 g w =
     (case emitPowerEvent ''sector-1'' g w of (g1, w1) \<Rightarrow>
      case emitPowerEvent ''sector-2'' g1 w1 of (g2, w2) \<Rightarrow>
        emitPowerEvent ''sector-3'' g2 w2)"
proof -
  have 3: "sector_loop 3 g' w' = (g', w')" for g' w'
    by (subst sector_loop.simps) (simp add: NUM_SECTORS_def)
  have 2: "sector_loop 2 g' w' = emitPowerEvent ''sector-3'' g' w'" for g' w'
    by (subst sector_loop.simps) (simp add: NUM_SECTORS_def SECTORS_def 3 split: prod.splits)
  have 1: "sector_loop 1 g' w' =
      (case emitPowerEvent ''sector-2'' g' w' of (g2, w2) \<Rightarrow> emitPowerEvent ''sector-3'' g2 w2)"
    for g' w'
    by (subst sector_loop.simps) (simp add: NUM_SECTORS_def SECTORS_def 2 split: prod.splits)
  show ?thesis
    by (subst sector_loop.simps) (simp add: NUM_SECTORS_def SECTORS_def 1 split: prod.splits)
qed

lemma emitPowerEvent_result:
  "emitPowerEvent sid g w =
     (sdrop 4 g,
      \<lparr>clock = stl (clock w),
       trace = trace w @ [Write Cout (emitted_text sid g (shd (clock w)) @ [newline]), Flush Cout, Flush Cout]\<rparr>)"
proof -
  have "snd (emitPowerEvent sid g w) =
      \<lparr>clock = stl (clock w),
       trace = trace w @ [Write Cout (emitted_text sid g (shd (clock w)) @ [newline]), Flush Cout, Flush Cout]\<rparr>"
    using emitPowerEvent_clock[of sid g w] emitPowerEvent_trace[of sid g w]
    by (cases "snd (emitPowerEvent sid g w)") simp
  moreover have "fst (emitPowerEvent sid g w) = sdrop 4 g"
    by (simp add: emitPowerEvent_gen numeral_eq_Suc)
  ultimately show ?thesis by (simp add: prod_eq_iff)
qed

lemma sector_loop_result:
  "sector_loop 0 g w =
     (sdrop 12 g,
      \<lparr>clock = sdrop 3 (clock w),
       trace = trace w @
         [Write Cout (emitted_text ''sector-1'' g (clock w !! 0) @ [newline]), Flush Cout, Flush Cout,
          Write Cout (emitted_text ''sector-2'' (sdrop 4 g) (clock w !! 1) @ [newline]), Flush Cout, Flush Cout,
          Write Cout (emitted_text ''sector-3'' (sdrop 8 g) (clock w !! 2) @ [newline]), Flush Cout, Flush Cout]\<rparr>)"
  unfolding sector_loop_unrolled emitPowerEvent_result
  by (simp add: numeral_eq_Suc)

lemma loop_body_result:
  "loop_body s =
     \<lparr>cycle = cycle s + 1, gen = sdrop 12 (gen s),
      env = \<lparr>clock = sdrop 3 (clock (env s)),
             trace = trace (env s) @ cycle_events (cycle s + 1) (gen s) (clock (env s))\<rparr>\<rparr>"
  unfolding loop_body_def Let_def sector_loop_result
  by (simp add: put_line_def put_def flush_def sleep_for_def cycle_events_def EVENT_INTERVAL_SEC_def)

lemma loop_body_new_events:
  "new_events (env s) (env (loop_body s)) = cycle_events (cycle s + 1) (gen s) (clock (env s))"
  by (simp add: loop_body_result new_events_def)

lemma read_event_emitted_text:
  assumes "sid \<in> set SECTORS"
  shows "read_event (emitted_text sid g now) =
    Some \<lparr>f_sector_id = sid, f_voltage = show_fixed 2 (voltage_drawn g),
          f_load = show_fixed 2 (load_drawn g), f_timestamp = timestamp_of now,
          f_status = (if voltage_drawn g < 50.0 then ''failure'' else ''normal'')\<rparr>"
  unfolding emitted_text_def
  by (rule read_event_event_text[OF sector_no_dquote[OF assms] timestamp_of_no_dquote])

lemma sectors_mem:
  "''sector-1'' \<in> set SECTORS" "''sector-2'' \<in> set SECTORS" "''sector-3'' \<in> set SECTORS"
  by (simp_all add: SECTORS_def)

lemma lines_written_cout_cycle_events:
  "lines_written Cout (cycle_events c g clk) =
     [emitted_text ''sector-1'' g (clk !! 0),
      emitted_text ''sector-2'' (sdrop 4 g) (clk !! 1),
      emitted_text ''sector-3'' (sdrop 8 g) (clk !! 2)]"
proof -
  note n = emitted_text_no_newline[OF sectors_mem(1)] emitted_text_no_newline[OF sectors_mem(2)]
    emitted_text_no_newline[OF sectors_mem(3)]
  show ?thesis
    by (simp add: lines_written_def cycle_events_def split_lines_line[OF n(1)]
        split_lines_line[OF n(2)] split_lines_line[OF n(3)] del: snth.simps)
qed

lemma readings_cycle_events:
  "readings (cycle_events c g clk) =
     [Some \<lparr>f_sector_id = ''sector-1'', f_voltage = show_fixed 2 (voltage_drawn g),
            f_load = show_fixed 2 (load_drawn g), f_timestamp = timestamp_of (clk !! 0),
            f_status = (if voltage_drawn g < 50.0 then ''failure'' else ''normal'')\<rparr>,
      Some \<lparr>f_sector_id = ''sector-2'', f_voltage = show_fixed 2 (voltage_drawn (sdrop 4 g)),
            f_load = show_fixed 2 (load_drawn (sdrop 4 g)), f_timestamp = timestamp_of (clk !! 1),
            f_status = (if voltage_drawn (sdrop 4 g) < 50.0 then ''failure'' else ''normal'')\<rparr>,
      Some \<lparr>f_sector_id = ''sector-3'', f_voltage = show_fixed 2 (voltage_drawn (sdrop 8 g)),
            f_load = show_fixed 2 (load_drawn (sdrop 8 g)), f_timestamp = timestamp_of (clk !! 2),
            f_status = (if voltage_drawn (sdrop 8 g) < 50.0 then ''failure'' else ''normal'')\<rparr>]"
  unfolding readings_def lines_written_cout_cycle_events
  by (simp add: read_event_emitted_text[OF sectors_mem(1)] read_event_emitted_text[OF sectors_mem(2)]
      read_event_emitted_text[OF sectors_mem(3)] del: snth.simps)

lemma cycle_line_no_newline: "newline \<notin> set (cycle_line c)"
proof -
  have "list_all (\<lambda>c. c \<noteq> newline) (show_int i)" for i
    by (rule list_all_show_int) (simp_all add: digit_not_newline, simp add: newline_def)
  from this[of "sint c"] show ?thesis by (auto simp: cycle_line_def list_all_iff newline_def)
qed

lemma lines_written_cerr_cycle_events: "lines_written Cerr (cycle_events c g clk) = [cycle_line c]"
  by (simp add: lines_written_def cycle_events_def
      split_lines_line[OF cycle_line_no_newline[of c], of "[]" "[]", simplified])

lemma sleeps_cycle_events: "sleeps (cycle_events c g clk) = [5]"
  by (simp add: cycle_events_def)

subsection \<open>The loop after n iterations\<close>

lemma after_cycles_Suc: "after_cycles (Suc n) seeded rd w = loop_body (after_cycles n seeded rd w)"
  by (simp add: after_cycles_def)

lemma run_events_Suc:
  "run_events (Suc n) g clk =
     run_events n g clk @ cycle_events (of_nat (Suc n)) (sdrop (12 * n) g) (sdrop (3 * n) clk)"
  by (simp add: run_events_def)

lemma after_cycles_state:
  "after_cycles n seeded rd w =
     \<lparr>cycle = of_nat n, gen = sdrop (12 * n) (seeded rd),
      env = \<lparr>clock = sdrop (3 * n) (clock w),
             trace = trace w @ startup_events @ run_events n (seeded rd) (clock w)\<rparr>\<rparr>"
proof (induction n)
  case 0
  have "startup w = \<lparr>clock = clock w, trace = trace w @ startup_events\<rparr>"
    using startup_trace[of w] startup_clock[of w] by (cases "startup w") simp
  then show ?case by (simp add: after_cycles_def main_init_def run_events_def)
next
  case (Suc n)
  have 1: "sdrop 12 (sdrop (12 * n) g) = sdrop (12 * Suc n) g" for g :: mt19937
    by (simp add: sdrop_add add.commute)
  have 2: "sdrop 3 (sdrop (3 * n) c) = sdrop (3 * Suc n) c" for c :: "int stream"
    by (simp add: sdrop_add add.commute)
  have 3: "(of_nat n :: 32 word) + 1 = of_nat (Suc n)"
    by simp
  show ?case
    unfolding after_cycles_Suc Suc.IH loop_body_result run_events_Suc
    by (simp only: main_state.simps world.simps 1 2 3 append_assoc)
qed

lemma written_append: "written os (a @ b) = written os a @ written os b"
  by (induction a rule: written.induct) simp_all

lemma sleeps_append: "sleeps (a @ b) = sleeps a @ sleeps b"
  by (induction a rule: sleeps.induct) simp_all

lemma sleeps_run_events: "sleeps (run_events n g clk) = replicate n 5"
  by (induction n) (simp_all add: run_events_Suc sleeps_append sleeps_cycle_events
      replicate_append_same, simp add: run_events_def)

lemma sleeps_startup_events: "sleeps startup_events = []"
  by (simp add: startup_events_def)

subsection \<open>The loop does not end\<close>

lemma main_loop_never_returns: "main_loop s \<noteq> Some r"
proof
  assume "main_loop s = Some r"
  then show False
    by (rule main_loop.raw_induct[where P = "\<lambda>_ _. False", rotated]) simp
qed

lemma main_loop_None: "main_loop s = None"
  using main_loop_never_returns[of s] by (cases "main_loop s") auto

text \<open>
  C3. Every iteration of the loop, from whatever state it starts, writes exactly three lines
  to the primary output stream; they read back as three Readings, one per configured sector,
  in the configured order \<open>sector-1\<close>, \<open>sector-2\<close>, \<open>sector-3\<close>.
\<close>

theorem one_reading_per_sector_in_order:
  "\<exists>r1 r2 r3.
      readings (new_events (env s) (env (loop_body s))) = [Some r1, Some r2, Some r3]
    \<and> length (lines_written Cout (new_events (env s) (env (loop_body s)))) = 3
    \<and> [f_sector_id r1, f_sector_id r2, f_sector_id r3] = SECTORS
    \<and> SECTORS = [''sector-1'', ''sector-2'', ''sector-3'']"
  unfolding loop_body_new_events readings_cycle_events lines_written_cout_cycle_events
  by (simp add: SECTORS_def)

lemma sint_of_nat_small: "n < 2 ^ 31 \<Longrightarrow> sint (of_nat n :: 32 word) = int n"
  by (simp add: signed_of_nat signed_take_bit_int_eq_self)

lemma readings_cycle_rest:
  "\<exists>r1 r2 r3. readings (drop 2 (cycle_events c g clk)) = [Some r1, Some r2, Some r3]"
proof -
  have "readings (drop 2 (cycle_events c g clk)) = readings (cycle_events c g clk)"
    by (simp add: readings_def lines_written_def cycle_events_def)
  then show ?thesis unfolding readings_cycle_events by blast
qed

text \<open>
  C7. The counter is 0 when the loop is entered and one more after each iteration, so the
  iterations are numbered 1, 2, 3, ... (as long as the number fits the 32-bit \<^verbatim>\<open>int\<close>).
  The first effect of iteration \<open>n + 1\<close> is the diagnostic line with the number \<open>n + 1\<close> on
  the diagnostic stream; nothing else of the iteration goes to that stream, and the three
  Readings of the iteration come after the line.
\<close>

theorem cycle_counter_and_diagnostic_line:
  assumes "n < 2 ^ 31 - 1"
  shows "cycle (after_cycles 0 seeded rd w) = 0
    \<and> after_cycles (Suc n) seeded rd w = loop_body (after_cycles n seeded rd w)
    \<and> sint (cycle (after_cycles n seeded rd w)) = int n
    \<and> sint (cycle (after_cycles (Suc n) seeded rd w)) = int n + 1
    \<and> (\<exists>rest r1 r2 r3.
          new_events (env (after_cycles n seeded rd w)) (env (after_cycles (Suc n) seeded rd w))
            = Write Cerr (''[QNX] deterministic loop - cycle '' @ show_int (int n + 1) @ [newline])
              # Flush Cerr # rest
        \<and> written Cerr rest = []
        \<and> readings rest = [Some r1, Some r2, Some r3])"
proof -
  let ?s = "after_cycles n seeded rd w"
  have c: "cycle ?s = of_nat n" by (simp add: after_cycles_state)
  have 1: "sint (cycle ?s) = int n"
    unfolding c using assms by (intro sint_of_nat_small) simp
  have "cycle ?s + 1 = of_nat (Suc n)" unfolding c by simp
  moreover have "sint (of_nat (Suc n) :: 32 word) = int (Suc n)"
    using assms by (intro sint_of_nat_small) simp
  ultimately have "sint (cycle ?s + 1) = int (Suc n)" by (simp only:)
  then have 2: "sint (cycle ?s + 1) = int n + 1" by simp
  then have 3: "sint (cycle (after_cycles (Suc n) seeded rd w)) = int n + 1"
    by (simp add: after_cycles_Suc loop_body_result)
  define rest where "rest = drop 2 (cycle_events (cycle ?s + 1) (gen ?s) (clock (env ?s)))"
  have 4: "new_events (env ?s) (env (after_cycles (Suc n) seeded rd w))
      = Write Cerr (''[QNX] deterministic loop - cycle '' @ show_int (int n + 1) @ [newline])
        # Flush Cerr # rest"
    unfolding after_cycles_Suc loop_body_new_events rest_def
    by (simp add: cycle_events_def cycle_line_def 2)
  have 5: "written Cerr rest = []" by (simp add: rest_def cycle_events_def)
  obtain r1 r2 r3 where 6: "readings rest = [Some r1, Some r2, Some r3]"
    unfolding rest_def using readings_cycle_rest by blast
  have 0: "cycle (after_cycles 0 seeded rd w) = 0" by (simp add: after_cycles_state)
  from 0 1 3 4 5 6 after_cycles_Suc[of n seeded rd w] show ?thesis by blast
qed

theorem cycle_counter_and_diagnostic_line_witness:
  "(0 :: nat) < 2 ^ 31 - 1
   \<and> sint (cycle (after_cycles (Suc 0) (siterate (\<lambda>x. x * 1664525 + 1013904223)) 42
        \<lparr>clock = sconst 0, trace = []\<rparr>)) = 1
   \<and> (\<exists>rest r1 r2 r3.
          new_events
            (env (after_cycles 0 (siterate (\<lambda>x. x * 1664525 + 1013904223)) 42
               \<lparr>clock = sconst 0, trace = []\<rparr>))
            (env (after_cycles (Suc 0) (siterate (\<lambda>x. x * 1664525 + 1013904223)) 42
               \<lparr>clock = sconst 0, trace = []\<rparr>))
            = Write Cerr (''[QNX] deterministic loop - cycle 1'' @ [newline]) # Flush Cerr # rest
        \<and> written Cerr rest = []
        \<and> readings rest = [Some r1, Some r2, Some r3])"
proof -
  let ?seeded = "siterate (\<lambda>x :: 32 word. x * 1664525 + 1013904223)"
  let ?w = "\<lparr>clock = sconst 0, trace = []\<rparr>"
  have h: "(0 :: nat) < 2 ^ 31 - 1" by simp
  have t: "''[QNX] deterministic loop - cycle '' @ show_int (int 0 + 1) @ [newline]
      = ''[QNX] deterministic loop - cycle 1'' @ [newline]"
    by (simp add: show_int_def show_nat.simps digit_char_def)
  note inst = cycle_counter_and_diagnostic_line[OF h, of ?seeded 42 ?w, unfolded t]
  from inst have "sint (cycle (after_cycles (Suc 0) ?seeded 42 ?w)) = int 0 + 1" by blast
  then have 1: "sint (cycle (after_cycles (Suc 0) ?seeded 42 ?w)) = 1" by simp
  from inst h 1 show ?thesis by blast
qed

lemma readings_cycle_front:
  "\<exists>r1 r2 r3. readings (butlast (cycle_events c g clk)) = [Some r1, Some r2, Some r3]"
proof -
  have "readings (butlast (cycle_events c g clk)) = readings (cycle_events c g clk)"
    by (simp add: readings_def lines_written_def cycle_events_def)
  then show ?thesis unfolding readings_cycle_events by blast
qed

text \<open>
  C8. Every iteration of the loop ends with a sleep of \<^verbatim>\<open>EVENT_INTERVAL_SEC\<close> = 5 seconds,
  issued after the three Readings of the iteration are written, and it is the only sleep of
  the iteration; the start-up sleeps not at all, so \<open>n\<close> iterations have slept \<open>n\<close> times, 5
  seconds each. The loop has no exit: \<^verbatim>\<open>main\<close> does not return.
\<close>

theorem sleep_ends_every_cycle_and_main_never_returns:
  "(\<exists>pre r1 r2 r3.
        new_events (env s) (env (loop_body s)) = pre @ [SleepFor EVENT_INTERVAL_SEC]
      \<and> sleeps pre = []
      \<and> readings pre = [Some r1, Some r2, Some r3])
   \<and> EVENT_INTERVAL_SEC = 5
   \<and> sleeps (trace (env (after_cycles n seeded rd w))) = sleeps (trace w) @ replicate n 5
   \<and> main seeded rd w = None"
proof -
  define pre where "pre = butlast (cycle_events (cycle s + 1) (gen s) (clock (env s)))"
  have 1: "new_events (env s) (env (loop_body s)) = pre @ [SleepFor EVENT_INTERVAL_SEC]"
    unfolding loop_body_new_events pre_def by (simp add: cycle_events_def EVENT_INTERVAL_SEC_def)
  have 2: "sleeps pre = []" by (simp add: pre_def cycle_events_def)
  obtain r1 r2 r3 where 3: "readings pre = [Some r1, Some r2, Some r3]"
    unfolding pre_def using readings_cycle_front by blast
  have 4: "sleeps (trace (env (after_cycles n seeded rd w))) = sleeps (trace w) @ replicate n 5"
    by (simp add: after_cycles_state sleeps_append sleeps_startup_events sleeps_run_events)
  have 5: "main seeded rd w = None" by (simp add: main_def main_loop_None)
  from 1 2 3 4 5 show ?thesis by (auto simp: EVENT_INTERVAL_SEC_def)
qed

subsection \<open>Numbers of fixed width\<close>

lemma length_fixed_digits: "length (fixed_digits k n) = k"
  by (induction k arbitrary: n) simp_all

lemma fixed_digits_are_digits: "list_all is_digit (fixed_digits k n)"
  by (induction k arbitrary: n) (simp_all add: digit_char_is_digit)

lemma fixed_digits_zero: "fixed_digits k 0 = replicate k (CHR ''0'')"
  by (induction k) (simp_all add: digit_char_def replicate_append_same)

lemma setw_fill_show_nat:
  "n < 10 ^ k \<Longrightarrow> 0 < k \<Longrightarrow> setw_fill k (CHR ''0'') (show_nat n) = fixed_digits k n"
proof (induction k arbitrary: n)
  case 0
  then show ?case by simp
next
  case (Suc k)
  show ?case
  proof (cases "n < 10")
    case True
    then show ?thesis
      by (simp add: setw_fill_def show_nat.simps[of n] fixed_digits_zero)
  next
    case False
    with Suc.prems have k: "0 < k" by (cases k) simp_all
    from Suc.prems have "n div 10 < 10 ^ k" by (simp add: less_mult_imp_div_less mult.commute)
    from Suc.IH[OF this k] show ?thesis
      using False by (simp add: setw_fill_def show_nat.simps[of n] Suc_diff_le)
  qed
qed

lemma length_show_nat_le: "n < 10 ^ k \<Longrightarrow> 0 < k \<Longrightarrow> length (show_nat n) \<le> k"
proof (induction k arbitrary: n)
  case 0
  then show ?case by simp
next
  case (Suc k)
  show ?case
  proof (cases "n < 10")
    case True
    then show ?thesis by (simp add: show_nat.simps[of n])
  next
    case False
    with Suc.prems have k: "0 < k" by (cases k) simp_all
    from Suc.prems have "n div 10 < 10 ^ k" by (simp add: less_mult_imp_div_less mult.commute)
    from Suc.IH[OF this k] show ?thesis using False by (simp add: show_nat.simps[of n])
  qed
qed

lemma below_ten:
  "d < 10 \<Longrightarrow> d = 0 \<or> d = 1 \<or> d = 2 \<or> d = 3 \<or> d = 4 \<or> d = 5 \<or> d = 6 \<or> d = 7 \<or> d = 8 \<or> d = (9 :: nat)"
  by arith

lemma digit_char_code: "d < 10 \<Longrightarrow> of_char (digit_char d) = 48 + d"
  by (drule below_ten) (auto simp: digit_char_def)

lemma digit_char_less: "c < 10 \<Longrightarrow> d < 10 \<Longrightarrow> (digit_char c < digit_char d) = (c < d)"
  by (simp add: less_char_def digit_char_code)

lemma digit_char_eq: "c < 10 \<Longrightarrow> d < 10 \<Longrightarrow> (digit_char c = digit_char d) = (c = d)"
  using digit_char_code[of c] digit_char_code[of d] by (metis add_left_cancel)

lemma append_less_same_length:
  "length x = length y \<Longrightarrow> (x @ u < y @ v) = (x < y \<or> x = y \<and> u < (v :: 'a :: linorder list))"
  by (induction x y rule: list_induct2) auto

lemma append_le_same_length:
  "length x = length y \<Longrightarrow> (x @ u \<le> y @ v) = (x < y \<or> x = y \<and> u \<le> (v :: 'a :: linorder list))"
  by (induction x y rule: list_induct2) auto

lemma div_mod_10_eq: "(a div 10 = b div 10 \<and> a mod 10 = b mod 10) = (a = (b :: nat))"
  by (metis div_mult_mod_eq)

lemma lex_base:
  "ra < c \<Longrightarrow> rb < c \<Longrightarrow> (qa < qb \<or> qa = qb \<and> ra < rb) = (c * qa + ra < c * qb + (rb :: nat))"
proof (cases qa qb rule: linorder_cases)
  case less
  assume "ra < c" "rb < c"
  from less have "Suc qa \<le> qb" by simp
  then have "c * Suc qa \<le> c * qb" by (rule mult_le_mono2)
  with \<open>ra < c\<close> less show ?thesis by simp
next
  case equal
  then show ?thesis by simp
next
  case greater
  assume "ra < c" "rb < c"
  from greater have "Suc qb \<le> qa" by simp
  then have "c * Suc qb \<le> c * qa" by (rule mult_le_mono2)
  with \<open>rb < c\<close> greater show ?thesis by simp
qed

lemma div_mod_less:
  "0 < c \<Longrightarrow> (a div c < b div c \<or> a div c = b div c \<and> a mod c < b mod c) = (a < (b :: nat))"
  using lex_base[of "a mod c" c "b mod c" "a div c" "b div c"] by simp

lemma fixed_digits_eq: "a < 10 ^ k \<Longrightarrow> b < 10 ^ k \<Longrightarrow> (fixed_digits k a = fixed_digits k b) = (a = b)"
proof (induction k arbitrary: a b)
  case 0
  then show ?case by simp
next
  case (Suc k)
  from Suc.prems have "a div 10 < 10 ^ k" "b div 10 < 10 ^ k"
    by (simp_all add: less_mult_imp_div_less mult.commute)
  from Suc.IH[OF this] show ?case
    by (simp add: length_fixed_digits digit_char_eq div_mod_10_eq)
qed

lemma fixed_digits_less: "a < 10 ^ k \<Longrightarrow> b < 10 ^ k \<Longrightarrow> (fixed_digits k a < fixed_digits k b) = (a < b)"
proof (induction k arbitrary: a b)
  case 0
  then show ?case by simp
next
  case (Suc k)
  from Suc.prems have d: "a div 10 < 10 ^ k" "b div 10 < 10 ^ k"
    by (simp_all add: less_mult_imp_div_less mult.commute)
  from Suc.IH[OF d] fixed_digits_eq[OF d] show ?case
    by (simp add: append_less_same_length length_fixed_digits digit_char_less div_mod_less)
qed

subsection \<open>The calendar\<close>

lemma days_in_year_bounds: "365 \<le> days_in_year y \<and> days_in_year y \<le> 366"
  by (simp add: days_in_year_def)

lemma year_of_days_range:
  "0 \<le> d \<Longrightarrow> year_of_days y d = (y', r) \<Longrightarrow>
     y \<le> y' \<and> y' \<le> y + d div 365 \<and> 0 \<le> r \<and> r < days_in_year y'"
proof (induction y d rule: year_of_days.induct)
  case (1 y d)
  show ?case
  proof (cases "days_in_year y \<le> d")
    case True
    with "1.prems" have rec: "year_of_days (y + 1) (d - days_in_year y) = (y', r)"
      by (subst (asm) year_of_days.simps) simp
    have nonneg: "0 \<le> d - days_in_year y" using True by simp
    from "1.IH"(2)[OF _ True nonneg rec] "1.prems"(1)
    have ih: "y + 1 \<le> y'" "y' \<le> y + 1 + (d - days_in_year y) div 365" "0 \<le> r" "r < days_in_year y'"
      by simp_all
    have "(d - days_in_year y) div 365 \<le> (d - 365) div 365"
      using days_in_year_bounds[of y] by (intro zdiv_mono1) simp_all
    also have "\<dots> = d div 365 - 1" by simp
    finally show ?thesis using ih by simp
  next
    case False
    with "1.prems" have "(y', r) = (y, d)"
      by (subst (asm) year_of_days.simps) simp
    with False "1.prems"(1) show ?thesis
      by (simp add: pos_imp_zdiv_nonneg_iff)
  qed
qed

lemma year_of_days_strict_mono:
  "0 \<le> d \<Longrightarrow> d < d' \<Longrightarrow> year_of_days y d = (y1, r1) \<Longrightarrow> year_of_days y d' = (y2, r2) \<Longrightarrow>
     y1 < y2 \<or> y1 = y2 \<and> r1 < r2"
proof (induction y d' arbitrary: d rule: year_of_days.induct)
  case (1 y d')
  from "1.prems" have pos: "0 \<le> d'" by simp
  show ?case
  proof (cases "days_in_year y \<le> d'")
    case True
    with pos "1.prems" have rec': "year_of_days (y + 1) (d' - days_in_year y) = (y2, r2)"
      by (subst (asm) (2) year_of_days.simps) simp
    show ?thesis
    proof (cases "days_in_year y \<le> d")
      case le: True
      with "1.prems" have rec: "year_of_days (y + 1) (d - days_in_year y) = (y1, r1)"
        by (subst (asm) year_of_days.simps) simp
      from "1.IH"(2)[OF _ True _ _ rec rec'] pos le "1.prems"(2) show ?thesis by simp
    next
      case False
      with "1.prems" have "(y1, r1) = (y, d)"
        by (subst (asm) year_of_days.simps) simp
      moreover have "y + 1 \<le> y2"
        using year_of_days_range[OF _ rec'] True by simp
      ultimately show ?thesis by simp
    qed
  next
    case False
    with pos "1.prems" have "(y2, r2) = (y, d')"
      by (subst (asm) (2) year_of_days.simps) simp
    moreover from False "1.prems" have "(y1, r1) = (y, d)"
      by (subst (asm) year_of_days.simps) simp
    ultimately show ?thesis using "1.prems"(2) by simp
  qed
qed

lemma days_in_month_bounds: "28 \<le> days_in_month y m \<and> days_in_month y m \<le> 31"
  by (simp add: days_in_month_def)

lemma month_of_days_range:
  "0 \<le> d \<Longrightarrow> m \<le> 11 \<Longrightarrow> month_of_days y m d = (m', r) \<Longrightarrow> m \<le> m' \<and> m' \<le> 11 \<and> 0 \<le> r \<and> r \<le> d"
proof (induction y m d rule: month_of_days.induct)
  case (1 y m d)
  show ?case
  proof (cases "m < 11 \<and> days_in_month y m \<le> d")
    case True
    with "1.prems" have rec: "month_of_days y (m + 1) (d - days_in_month y m) = (m', r)"
      by (subst (asm) month_of_days.simps) simp
    from "1.IH"[OF True _ _ rec] True days_in_month_bounds[of y m] show ?thesis by simp
  next
    case False
    with "1.prems" have "(m', r) = (m, d)"
      by (subst (asm) month_of_days.simps) auto
    with "1.prems" show ?thesis by simp
  qed
qed

lemma month_of_days_strict_mono:
  "0 \<le> d \<Longrightarrow> d < d' \<Longrightarrow> m \<le> 11 \<Longrightarrow> month_of_days y m d = (m1, r1) \<Longrightarrow>
   month_of_days y m d' = (m2, r2) \<Longrightarrow> m1 < m2 \<or> m1 = m2 \<and> r1 < r2"
proof (induction y m d' arbitrary: d rule: month_of_days.induct)
  case (1 y m d')
  show ?case
  proof (cases "m < 11 \<and> days_in_month y m \<le> d'")
    case True
    with "1.prems" have rec': "month_of_days y (m + 1) (d' - days_in_month y m) = (m2, r2)"
      by (subst (asm) (2) month_of_days.simps) simp
    show ?thesis
    proof (cases "days_in_month y m \<le> d")
      case le: True
      with True "1.prems" have rec: "month_of_days y (m + 1) (d - days_in_month y m) = (m1, r1)"
        by (subst (asm) month_of_days.simps) simp
      from "1.IH"[OF True _ _ _ rec rec'] True le "1.prems"(2) show ?thesis by simp
    next
      case False
      with "1.prems" have "(m1, r1) = (m, d)"
        by (subst (asm) month_of_days.simps) auto
      moreover have "m + 1 \<le> m2"
        using month_of_days_range[OF _ _ rec'] True by simp
      ultimately show ?thesis by simp
    qed
  next
    case False
    with "1.prems" have "(m2, r2) = (m, d')"
      by (subst (asm) (2) month_of_days.simps) auto
    moreover have "(m1, r1) = (m, d)"
    proof (cases "m < 11 \<and> days_in_month y m \<le> d")
      case True
      with False "1.prems"(2) show ?thesis by simp
    next
      case f: False
      with "1.prems" show ?thesis by (subst (asm) month_of_days.simps) auto
    qed
    ultimately show ?thesis using "1.prems"(2) by simp
  qed
qed

text \<open>Within a year, the day of the month stays below the length of its month.\<close>

lemma below_eleven:
  "0 \<le> m \<Longrightarrow> m < 11 \<Longrightarrow>
     m = 0 \<or> m = 1 \<or> m = 2 \<or> m = 3 \<or> m = 4 \<or> m = 5 \<or> m = 6 \<or> m = 7 \<or> m = 8 \<or> m = 9 \<or> m = (10 :: int)"
  by arith

lemma days_to_year_end_step:
  assumes "0 \<le> m" "m < 11"
  shows "days_to_year_end y m = days_in_month y m + days_to_year_end y (m + 1)"
  using below_eleven[OF assms]
  by (elim disjE) (simp_all add: days_to_year_end_def days_in_month_def)

lemma month_of_days_within:
  "0 \<le> m \<Longrightarrow> m \<le> 11 \<Longrightarrow> d < days_to_year_end y m \<Longrightarrow> month_of_days y m d = (m', r) \<Longrightarrow>
     r < days_in_month y m'"
proof (induction y m d rule: month_of_days.induct)
  case (1 y m d)
  show ?case
  proof (cases "m < 11 \<and> days_in_month y m \<le> d")
    case True
    with "1.prems" have rec: "month_of_days y (m + 1) (d - days_in_month y m) = (m', r)"
      by (subst (asm) month_of_days.simps) simp
    have "d - days_in_month y m < days_to_year_end y (m + 1)"
      using "1.prems"(1,3) True days_to_year_end_step[of m y] by simp
    from "1.IH"[OF True _ _ this rec] "1.prems"(1) True show ?thesis by simp
  next
    case False
    with "1.prems" have eq: "(m', r) = (m, d)"
      by (subst (asm) month_of_days.simps) auto
    show ?thesis
    proof (cases "m < 11")
      case True
      with False eq show ?thesis by simp
    next
      case f: False
      with "1.prems" have "m = 11" by simp
      with "1.prems"(3) eq show ?thesis by (simp add: days_to_year_end_def days_in_month_def)
    qed
  qed
qed

lemma month_of_days_day:
  assumes "d < days_in_year y" "month_of_days y 0 d = (m, r)"
  shows "r < 31"
proof -
  have "days_to_year_end y 0 = days_in_year y"
    by (simp add: days_to_year_end_def days_in_year_def days_in_month_def)
  with assms(1) have "d < days_to_year_end y 0" by simp
  from month_of_days_within[OF _ _ this assms(2)] days_in_month_bounds[of y m]
  show ?thesis by simp
qed

subsection \<open>The fields of a timestamp\<close>

lemma show_nat_length_ge: "10 ^ k \<le> n \<Longrightarrow> k < length (show_nat n)"
proof (induction k arbitrary: n)
  case 0
  then show ?case using show_nat_nonempty[of n] by (cases "show_nat n") simp_all
next
  case (Suc k)
  then have "10 ^ k \<le> n div 10" by simp
  moreover have "\<not> n < 10"
  proof -
    have "(10 :: nat) \<le> 10 * 10 ^ k" by simp
    also have "\<dots> \<le> n" using Suc.prems by simp
    finally show ?thesis by simp
  qed
  ultimately show ?case using Suc.IH[of "n div 10"]
    by (subst show_nat.simps) simp
qed

lemma show_nat_exact_width:
  assumes "10 ^ k \<le> n" "n < 10 ^ Suc k"
  shows "show_nat n = fixed_digits (Suc k) n"
proof -
  have "Suc k \<le> length (show_nat n)" using show_nat_length_ge[OF assms(1)] by simp
  then have "setw_fill (Suc k) (CHR ''0'') (show_nat n) = show_nat n" by (simp add: setw_fill_def)
  with setw_fill_show_nat[OF assms(2)] show ?thesis by simp
qed

lemma two_digits_fixed: "0 \<le> i \<Longrightarrow> i < 100 \<Longrightarrow> two_digits i = fixed_digits 2 (nat i)"
  using setw_fill_show_nat[of "nat i" 2] by (simp add: two_digits_def show_int_def)

lemma year_fixed:
  assumes "1000 \<le> i" "i < 10000"
  shows "show_int i = fixed_digits 4 (nat i)"
proof -
  have "show_nat (nat i) = fixed_digits (Suc 3) (nat i)"
    using assms by (intro show_nat_exact_width) simp_all
  moreover have "Suc 3 = 4" by simp
  ultimately show ?thesis using assms(1) by (simp add: show_int_def)
qed

lemma millis_fixed:
  "0 \<le> i \<Longrightarrow> i < 1000 \<Longrightarrow> setw_fill 3 (CHR ''0'') (show_int i) = fixed_digits 3 (nat i)"
  using setw_fill_show_nat[of "nat i" 3] by (simp add: show_int_def)

lemma gmtime_range:
  assumes "0 \<le> t" "t < 9223372037"
  shows "0 \<le> tm_sec (gmtime t) \<and> tm_sec (gmtime t) < 60
    \<and> 0 \<le> tm_min (gmtime t) \<and> tm_min (gmtime t) < 60
    \<and> 0 \<le> tm_hour (gmtime t) \<and> tm_hour (gmtime t) < 24
    \<and> 1 \<le> tm_mday (gmtime t) \<and> tm_mday (gmtime t) \<le> 31
    \<and> 0 \<le> tm_mon (gmtime t) \<and> tm_mon (gmtime t) \<le> 11
    \<and> 70 \<le> tm_year (gmtime t) \<and> tm_year (gmtime t) \<le> 362"
proof -
  define days where "days = t div 86400"
  define secs where "secs = t mod 86400"
  obtain y yd where y: "year_of_days 1970 days = (y, yd)" by (cases "year_of_days 1970 days")
  obtain m md where m: "month_of_days y 0 yd = (m, md)" by (cases "month_of_days y 0 yd")
  have d0: "0 \<le> days" using assms(1) by (simp add: days_def pos_imp_zdiv_nonneg_iff)
  have "days \<le> 9223372036 div 86400" unfolding days_def using assms(2) by (intro zdiv_mono1) simp_all
  then have d1: "days \<le> 106751" by simp
  have "days div 365 \<le> 106751 div 365" using d1 by (intro zdiv_mono1) simp_all
  then have d2: "days div 365 \<le> 292" by simp
  from year_of_days_range[OF d0 y] d2
  have yr: "1970 \<le> y" "y \<le> 2262" "0 \<le> yd" "yd < days_in_year y" by simp_all
  from month_of_days_range[OF yr(3) _ m] have mr: "0 \<le> m" "m \<le> 11" "0 \<le> md" by simp_all
  from month_of_days_day[OF yr(4) m] have md: "md < 31" .
  have s: "0 \<le> secs" "secs < 86400" by (simp_all add: secs_def)
  then have h: "secs div 3600 < 24" "0 \<le> secs div 3600" by simp_all
  have g: "gmtime t = \<lparr>tm_sec = secs mod 60, tm_min = secs div 60 mod 60, tm_hour = secs div 3600,
      tm_mday = md + 1, tm_mon = m, tm_year = y - 1900\<rparr>"
    by (simp add: gmtime_def Let_def days_def[symmetric] secs_def[symmetric] y m)
  show ?thesis unfolding g using yr mr md h by simp
qed

lemma clock_reading_parts:
  assumes "clock_reading now"
  shows "to_time_t now = now div 1000000000"
    and "duration_cast_milliseconds now smod 1000 = now div 1000000 mod 1000"
    and "0 \<le> now div 1000000000" and "now div 1000000000 < 9223372037"
proof -
  from assms have n: "0 \<le> now" "now < 9223372036854775808" by (simp_all add: clock_reading_def)
  show "to_time_t now = now div 1000000000"
    using n(1) by (simp add: to_time_t_def signed_divide_int_def sgn_if)
  have "0 \<le> now div 1000000" using n(1) by (simp add: pos_imp_zdiv_nonneg_iff)
  then show "duration_cast_milliseconds now smod 1000 = now div 1000000 mod 1000"
    using n(1)
    by (simp add: duration_cast_milliseconds_def signed_divide_int_def signed_modulo_int_def sgn_if)
  show "0 \<le> now div 1000000000" using n(1) by (simp add: pos_imp_zdiv_nonneg_iff)
  have "now div 1000000000 \<le> 9223372036854775807 div 1000000000"
    using n(2) by (intro zdiv_mono1) simp_all
  then show "now div 1000000000 < 9223372037" by simp
qed

text \<open>The timestamp of a clock reading, field by field.\<close>

lemma timestamp_of_fields:
  assumes "clock_reading now"
  shows "timestamp_of now =
    fixed_digits 4 (nat (tm_year (gmtime (now div 1000000000)) + 1900)) @ CHR ''-'' #
    fixed_digits 2 (nat (tm_mon (gmtime (now div 1000000000)) + 1)) @ CHR ''-'' #
    fixed_digits 2 (nat (tm_mday (gmtime (now div 1000000000)))) @ CHR ''T'' #
    fixed_digits 2 (nat (tm_hour (gmtime (now div 1000000000)))) @ CHR '':'' #
    fixed_digits 2 (nat (tm_min (gmtime (now div 1000000000)))) @ CHR '':'' #
    fixed_digits 2 (nat (tm_sec (gmtime (now div 1000000000)))) @ CHR ''.'' #
    fixed_digits 3 (nat (now div 1000000 mod 1000)) @ ''Z''"
proof -
  note p = clock_reading_parts[OF assms]
  note r = gmtime_range[OF p(3,4)]
  have y: "show_int (tm_year (gmtime (now div 1000000000)) + 1900)
      = fixed_digits 4 (nat (tm_year (gmtime (now div 1000000000)) + 1900))"
    using r by (intro year_fixed) simp_all
  have ms: "setw_fill 3 (CHR ''0'') (show_int (now div 1000000 mod 1000))
      = fixed_digits 3 (nat (now div 1000000 mod 1000))"
    by (intro millis_fixed) simp_all
  have f: "two_digits (tm_mon (gmtime (now div 1000000000)) + 1)
        = fixed_digits 2 (nat (tm_mon (gmtime (now div 1000000000)) + 1))"
      "two_digits (tm_mday (gmtime (now div 1000000000)))
        = fixed_digits 2 (nat (tm_mday (gmtime (now div 1000000000))))"
      "two_digits (tm_hour (gmtime (now div 1000000000)))
        = fixed_digits 2 (nat (tm_hour (gmtime (now div 1000000000))))"
      "two_digits (tm_min (gmtime (now div 1000000000)))
        = fixed_digits 2 (nat (tm_min (gmtime (now div 1000000000))))"
      "two_digits (tm_sec (gmtime (now div 1000000000)))
        = fixed_digits 2 (nat (tm_sec (gmtime (now div 1000000000))))"
    using r by (simp_all add: two_digits_fixed)
  show ?thesis
    unfolding timestamp_of_def Let_def p(1,2) put_time_def y ms f by simp
qed

lemma fixed_digits_2:
  "fixed_digits 2 n = [digit_char (n div 10 mod 10), digit_char (n mod 10)]"
proof -
  have "fixed_digits (Suc (Suc 0)) n = [digit_char (n div 10 mod 10), digit_char (n mod 10)]"
    by simp
  moreover have "Suc (Suc 0) = 2" by simp
  ultimately show ?thesis by (simp only:)
qed

lemma fixed_digits_3:
  "fixed_digits 3 n = [digit_char (n div 10 div 10 mod 10), digit_char (n div 10 mod 10), digit_char (n mod 10)]"
proof -
  have "fixed_digits (Suc (Suc (Suc 0))) n =
      [digit_char (n div 10 div 10 mod 10), digit_char (n div 10 mod 10), digit_char (n mod 10)]"
    by simp
  moreover have "Suc (Suc (Suc 0)) = 3" by simp
  ultimately show ?thesis by (simp only:)
qed

lemma fixed_digits_4:
  "fixed_digits 4 n = [digit_char (n div 10 div 10 div 10 mod 10), digit_char (n div 10 div 10 mod 10),
     digit_char (n div 10 mod 10), digit_char (n mod 10)]"
proof -
  have "fixed_digits (Suc (Suc (Suc (Suc 0)))) n =
      [digit_char (n div 10 div 10 div 10 mod 10), digit_char (n div 10 div 10 mod 10),
       digit_char (n div 10 mod 10), digit_char (n mod 10)]"
    by simp
  moreover have "Suc (Suc (Suc (Suc 0))) = 4" by simp
  ultimately show ?thesis by (simp only:)
qed

lemma iso8601_ms_fields:
  "iso8601_ms (fixed_digits 4 y @ CHR ''-'' # fixed_digits 2 m @ CHR ''-'' # fixed_digits 2 d
     @ CHR ''T'' # fixed_digits 2 h @ CHR '':'' # fixed_digits 2 mi @ CHR '':'' # fixed_digits 2 s
     @ CHR ''.'' # fixed_digits 3 ms @ ''Z'')"
  unfolding fixed_digits_2 fixed_digits_3 fixed_digits_4 iso8601_ms_def
  by (simp add: digit_char_is_digit)

subsection \<open>Reading digits back\<close>

lemma read_nat_snoc: "read_nat (s @ [c]) = 10 * read_nat s + digit_value c"
  by (simp add: read_nat_def)

lemma digit_value_digit_char: "d < 10 \<Longrightarrow> digit_value (digit_char d) = d"
  by (simp add: digit_value_def digit_char_code)

lemma read_nat_fixed_digits: "read_nat (fixed_digits k n) = n mod 10 ^ k"
proof (induction k arbitrary: n)
  case 0
  show ?case by (simp add: read_nat_def)
next
  case (Suc k)
  have "read_nat (fixed_digits (Suc k) n) = 10 * (n div 10 mod 10 ^ k) + n mod 10"
    by (simp add: read_nat_snoc Suc.IH digit_value_digit_char)
  also have "\<dots> = n mod 10 ^ Suc k"
    by (simp add: mod_mult2_eq)
  finally show ?case .
qed

lemma read_nat_fixed_digits_int:
  assumes "0 \<le> i" "i < 10 ^ k"
  shows "int (read_nat (fixed_digits k (nat i))) = i"
proof -
  have "nat i < 10 ^ k" using assms by (simp add: nat_less_iff)
  then show ?thesis using assms(1) by (simp add: read_nat_fixed_digits)
qed

subsection \<open>Days since the epoch\<close>

lemma div_step:
  fixes y c :: int
  assumes "0 < c"
  shows "y div c - (y - 1) div c = (if y mod c = 0 then 1 else 0)"
proof (cases "y mod c = 0")
  case True
  have "y - 1 = c * (y div c - 1) + (c - 1)"
    using True mult_div_mod_eq[of c y] by (simp add: algebra_simps)
  then have "(y - 1) div c = y div c - 1"
    using assms by (intro int_div_pos_eq[where r = "c - 1"]) simp_all
  with True show ?thesis by simp
next
  case False
  have r: "0 < y mod c" using False pos_mod_sign[OF assms, of y] by arith
  have "y - 1 = c * (y div c) + (y mod c - 1)"
    using mult_div_mod_eq[of c y] by (simp add: algebra_simps)
  then have "(y - 1) div c = y div c"
  proof (rule int_div_pos_eq[where r = "y mod c - 1"])
    show "0 \<le> y mod c - 1" using r by simp
    show "y mod c - 1 < c" using pos_mod_bound[OF assms, of y] by simp
  qed
  with False show ?thesis by simp
qed

lemma leap_years_until_step:
  "leap_years_until y - leap_years_until (y - 1) = (if is_leap y then 1 else 0)"
proof -
  have a: "y mod 100 = 0 \<Longrightarrow> y mod 4 = 0" by presburger
  have b: "y mod 400 = 0 \<Longrightarrow> y mod 100 = 0" by presburger
  have "leap_years_until y - leap_years_until (y - 1)
      = (y div 4 - (y - 1) div 4) - (y div 100 - (y - 1) div 100) + (y div 400 - (y - 1) div 400)"
    by (simp add: leap_years_until_def)
  also have "\<dots> = (if is_leap y then 1 else 0)"
  proof -
    note s = div_step[of 4 y, simplified] div_step[of 100 y, simplified] div_step[of 400 y, simplified]
    show ?thesis
    proof (cases "y mod 4 = 0")
      case False
      with a have "y mod 100 \<noteq> 0" by auto
      moreover from this b have "y mod 400 \<noteq> 0" by auto
      ultimately have "y mod 100 \<noteq> 0" "y mod 400 \<noteq> 0" by simp_all
      with False show ?thesis unfolding s is_leap_def by simp
    next
      case 4: True
      show ?thesis
      proof (cases "y mod 100 = 0")
        case False
        with b have "y mod 400 \<noteq> 0" by auto
        with 4 False show ?thesis unfolding s is_leap_def by simp
      next
        case True
        with 4 show ?thesis unfolding s is_leap_def by simp
      qed
    qed
  qed
  finally show ?thesis .
qed

lemma days_before_year_step: "days_before_year (y + 1) = days_before_year y + days_in_year y"
proof -
  have "leap_years_until y = leap_years_until (y - 1) + (if is_leap y then 1 else 0)"
    using leap_years_until_step[of y] by arith
  then show ?thesis by (simp add: days_before_year_def days_in_year_def)
qed

lemma days_before_year_1970: "days_before_year 1970 = 0"
  by (simp add: days_before_year_def leap_years_until_def)

lemma year_of_days_total:
  "0 \<le> d \<Longrightarrow> year_of_days y d = (y', r) \<Longrightarrow> days_before_year y' + r = days_before_year y + d"
proof (induction y d rule: year_of_days.induct)
  case (1 y d)
  show ?case
  proof (cases "days_in_year y \<le> d")
    case True
    with "1.prems" have rec: "year_of_days (y + 1) (d - days_in_year y) = (y', r)"
      by (subst (asm) year_of_days.simps) simp
    have nonneg: "0 \<le> d - days_in_year y" using True by simp
    from "1.IH"(2)[OF _ True nonneg rec] "1.prems"(1)
    show ?thesis by (simp add: days_before_year_step)
  next
    case False
    with "1.prems" have "(y', r) = (y, d)"
      by (subst (asm) year_of_days.simps) simp
    then show ?thesis by simp
  qed
qed

lemma days_before_month_step:
  assumes "0 \<le> m" "m < 11"
  shows "days_before_month y (m + 2) = days_before_month y (m + 1) + days_in_month y m"
  using below_eleven[OF assms]
  by (elim disjE) (simp_all add: days_before_month_def days_in_month_def)

lemma month_of_days_total:
  "0 \<le> m \<Longrightarrow> m \<le> 11 \<Longrightarrow> month_of_days y m d = (m', r) \<Longrightarrow>
     days_before_month y (m' + 1) + r = days_before_month y (m + 1) + d"
proof (induction y m d rule: month_of_days.induct)
  case (1 y m d)
  show ?case
  proof (cases "m < 11 \<and> days_in_month y m \<le> d")
    case True
    with "1.prems" have rec: "month_of_days y (m + 1) (d - days_in_month y m) = (m', r)"
      by (subst (asm) month_of_days.simps) simp
    from "1.IH"[OF True _ _ rec] "1.prems"(1) True
    have "days_before_month y (m' + 1) + r = days_before_month y (m + 1 + 1) + (d - days_in_month y m)"
      by simp
    moreover have "m + 1 + 1 = m + 2" by simp
    ultimately show ?thesis
      using days_before_month_step[OF "1.prems"(1), of y] True by simp
  next
    case False
    with "1.prems" have "(m', r) = (m, d)"
      by (subst (asm) month_of_days.simps) auto
    then show ?thesis by simp
  qed
qed

lemma month_length_days_in_month:
  "0 \<le> m \<Longrightarrow> m \<le> 11 \<Longrightarrow> month_length y (m + 1) = days_in_month y m"
proof (cases "m = 11")
  case True
  then show ?thesis by (simp add: month_length_def days_in_month_def)
next
  case False
  assume "0 \<le> m" "m \<le> 11"
  with False have "m < 11" by simp
  from below_eleven[OF \<open>0 \<le> m\<close> this] show ?thesis
    by (elim disjE) (simp_all add: month_length_def days_in_month_def)
qed


subsection \<open>The instant of a timestamp\<close>

lemma time_of_day:
  fixes secs :: int
  shows "(secs div 3600 * 60 + secs div 60 mod 60) * 60 + secs mod 60 = secs"
proof -
  have "secs div 3600 = secs div 60 div 60"
    using zdiv_zmult2_eq[of 60 secs 60] by simp
  then have "secs div 3600 * 60 + secs div 60 mod 60 = secs div 60" by simp
  then show ?thesis by simp
qed

lemma gmtime_instant:
  assumes "0 \<le> t" "t < 9223372037" "0 \<le> ms" "ms < 1000"
  shows "civil_instant (tm_year (gmtime t) + 1900) (tm_mon (gmtime t) + 1) (tm_mday (gmtime t))
           (tm_hour (gmtime t)) (tm_min (gmtime t)) (tm_sec (gmtime t)) ms
         = Some (t * 1000 + ms)"
proof -
  define days where "days = t div 86400"
  define secs where "secs = t mod 86400"
  obtain y yd where y: "year_of_days 1970 days = (y, yd)" by (cases "year_of_days 1970 days")
  obtain m md where m: "month_of_days y 0 yd = (m, md)" by (cases "month_of_days y 0 yd")
  have d0: "0 \<le> days" using assms(1) by (simp add: days_def pos_imp_zdiv_nonneg_iff)
  from year_of_days_range[OF d0 y] have yr: "0 \<le> yd" "yd < days_in_year y" by simp_all
  from month_of_days_range[OF yr(1) _ m] have mr: "0 \<le> m" "m \<le> 11" "0 \<le> md" by simp_all
  have "days_to_year_end y 0 = days_in_year y"
    by (simp add: days_to_year_end_def days_in_year_def days_in_month_def)
  with yr(2) have "yd < days_to_year_end y 0" by simp
  from month_of_days_within[OF _ _ this m] have md: "md < days_in_month y m" by simp
  have s: "0 \<le> secs" "secs < 86400" by (simp_all add: secs_def)
  then have h: "secs div 3600 < 24" "0 \<le> secs div 3600" by simp_all
  have g: "gmtime t = \<lparr>tm_sec = secs mod 60, tm_min = secs div 60 mod 60, tm_hour = secs div 3600,
      tm_mday = md + 1, tm_mon = m, tm_year = y - 1900\<rparr>"
    by (simp add: gmtime_def Let_def days_def[symmetric] secs_def[symmetric] y m)
  have ok: "1 \<le> m + 1" "m + 1 \<le> 12" "1 \<le> md + 1" "md + 1 \<le> month_length y (m + 1)"
    using mr md by (simp_all add: month_length_days_in_month)
  have 1: "days_before_year y + yd = days"
    using year_of_days_total[OF d0 y] by (simp add: days_before_year_1970)
  have 2: "days_before_month y (m + 1) + md = yd"
    using month_of_days_total[OF _ _ m] by (simp add: days_before_month_def)
  have 3: "days_before_year y + days_before_month y (m + 1) + (md + 1 - 1) = days"
    using 1 2 by simp
  have "t = days * 86400 + secs" by (simp add: days_def secs_def)
  also have "\<dots> = days * 86400 + ((secs div 3600 * 60 + secs div 60 mod 60) * 60 + secs mod 60)"
    by (simp only: time_of_day)
  also have "\<dots> = ((days * 24 + secs div 3600) * 60 + secs div 60 mod 60) * 60 + secs mod 60"
    by (simp add: algebra_simps)
  finally have 4: "((days * 24 + secs div 3600) * 60 + secs div 60 mod 60) * 60 + secs mod 60 = t"
    by simp
  have "civil_instant y (m + 1) (md + 1) (secs div 3600) (secs div 60 mod 60) (secs mod 60) ms
      = Some ((((days * 24 + secs div 3600) * 60 + secs div 60 mod 60) * 60 + secs mod 60) * 1000 + ms)"
    unfolding civil_instant_def 3 using ok h assms(3,4) by simp
  then show ?thesis unfolding g 4 by simp
qed

lemma instant_of_timestamp_fields:
  "instant_of_timestamp (fixed_digits 4 y @ CHR ''-'' # fixed_digits 2 m @ CHR ''-'' # fixed_digits 2 d
     @ CHR ''T'' # fixed_digits 2 h @ CHR '':'' # fixed_digits 2 mi @ CHR '':'' # fixed_digits 2 s
     @ CHR ''.'' # fixed_digits 3 ms @ ''Z'')
   = civil_instant (int (read_nat (fixed_digits 4 y))) (int (read_nat (fixed_digits 2 m)))
       (int (read_nat (fixed_digits 2 d))) (int (read_nat (fixed_digits 2 h)))
       (int (read_nat (fixed_digits 2 mi))) (int (read_nat (fixed_digits 2 s)))
       (int (read_nat (fixed_digits 3 ms)))"
  unfolding instant_of_timestamp_def using iso8601_ms_fields[of y m d h mi s ms]
  by (simp add: length_fixed_digits)

text \<open>The timestamp of a clock reading denotes the reading, cut to the millisecond.\<close>

lemma instant_of_timestamp_of:
  assumes "clock_reading now"
  shows "instant_of_timestamp (timestamp_of now) = Some (now div 1000000)"
proof -
  let ?t = "now div 1000000000"
  let ?ms = "now div 1000000 mod 1000"
  note p = clock_reading_parts[OF assms]
  note r = gmtime_range[OF p(3,4)]
  have ms: "0 \<le> ?ms" "?ms < 1000" by simp_all
  have f: "int (read_nat (fixed_digits 4 (nat (tm_year (gmtime ?t) + 1900)))) = tm_year (gmtime ?t) + 1900"
    "int (read_nat (fixed_digits 2 (nat (tm_mon (gmtime ?t) + 1)))) = tm_mon (gmtime ?t) + 1"
    "int (read_nat (fixed_digits 2 (nat (tm_mday (gmtime ?t))))) = tm_mday (gmtime ?t)"
    "int (read_nat (fixed_digits 2 (nat (tm_hour (gmtime ?t))))) = tm_hour (gmtime ?t)"
    "int (read_nat (fixed_digits 2 (nat (tm_min (gmtime ?t))))) = tm_min (gmtime ?t)"
    "int (read_nat (fixed_digits 2 (nat (tm_sec (gmtime ?t))))) = tm_sec (gmtime ?t)"
    "int (read_nat (fixed_digits 3 (nat ?ms))) = ?ms"
    using r by (simp_all add: read_nat_fixed_digits_int)
  have "?t = now div 1000000 div 1000"
    using zdiv_zmult2_eq[of 1000 now 1000000] by simp
  then have e: "?t * 1000 + ?ms = now div 1000000" by simp
  show ?thesis
    unfolding timestamp_of_fields[OF assms] instant_of_timestamp_fields f
      gmtime_instant[OF p(3,4) ms] e ..
qed


text \<open>
  C6. For a clock reading at or after the epoch (within the clock's 64-bit nanosecond count),
  the timestamp that \<^verbatim>\<open>getCurrentTimestamp\<close> returns has the shape
  \<^verbatim>\<open>YYYY-MM-DDTHH:MM:SS.mmmZ\<close>, and read as a date and a time of day in UTC it denotes
  the instant of the reading, cut to the millisecond. Its last five characters are the point,
  the three digits of the millisecond within the second, and \<open>Z\<close>; when that millisecond is
  zero they are \<open>.000Z\<close>. Each call consumes one clock reading.
\<close>

theorem timestamp_is_iso8601_with_milliseconds:
  assumes "clock_reading (shd (clock w))"
  shows "iso8601_ms (fst (getCurrentTimestamp w))
    \<and> instant_of_timestamp (fst (getCurrentTimestamp w)) = Some (shd (clock w) div 1000000)
    \<and> drop 19 (fst (getCurrentTimestamp w))
        = ''.'' @ fixed_digits 3 (nat (shd (clock w) div 1000000 mod 1000)) @ ''Z''
    \<and> (shd (clock w) div 1000000 mod 1000 = 0 \<longrightarrow> drop 19 (fst (getCurrentTimestamp w)) = ''.000Z'')
    \<and> clock (snd (getCurrentTimestamp w)) = stl (clock w)"
proof -
  let ?now = "shd (clock w)"
  have ts: "fst (getCurrentTimestamp w) = timestamp_of ?now"
    by (simp add: getCurrentTimestamp_def)
  have 1: "iso8601_ms (timestamp_of ?now)"
    unfolding timestamp_of_fields[OF assms] by (rule iso8601_ms_fields)
  have 2: "drop 19 (timestamp_of ?now) = ''.'' @ fixed_digits 3 (nat (?now div 1000000 mod 1000)) @ ''Z''"
    unfolding timestamp_of_fields[OF assms] by (simp add: length_fixed_digits)
  have 3: "drop 19 (timestamp_of ?now) = ''.000Z''" if "?now div 1000000 mod 1000 = 0"
    unfolding 2 that by (simp add: fixed_digits_3 digit_char_def)
  have 4: "clock (snd (getCurrentTimestamp w)) = stl (clock w)"
    by (simp add: getCurrentTimestamp_def)
  note 5 = instant_of_timestamp_of[OF assms]
  from 1 2 3 4 5 show ?thesis unfolding ts by blast
qed

lemma timestamp_of_new_year: "timestamp_of 1735689600000000000 = ''2025-01-01T00:00:00.000Z''"
  by code_simp

lemma timestamp_of_autumn: "timestamp_of 1793333333000000000 = ''2026-10-30T04:08:53.000Z''"
  by code_simp

lemma instant_of_timestamp_examples:
  "instant_of_timestamp ''2025-01-01T00:00:00.000Z'' = Some 1735689600000"
  "instant_of_timestamp ''2026-10-30T04:08:53.000Z'' = Some 1793333333000"
  "instant_of_timestamp ''2026-30-10T04:08:53.000Z'' = None"
  "instant_of_timestamp ''2026-10-30T08:04:53.000Z'' = Some 1793347493000"
  by code_simp+

text \<open>
  Midnight of 1 January 2025, and 04:08:53 of 30 October 2026, a date and a time whose fields
  all differ: no other order of the fields denotes the instant.
\<close>

theorem timestamp_is_iso8601_with_milliseconds_witness:
  "clock_reading (shd (clock \<lparr>clock = sconst 1735689600000000000, trace = []\<rparr>))
   \<and> shd (clock \<lparr>clock = sconst 1735689600000000000, trace = []\<rparr>) div 1000000 mod 1000 = (0 :: int)
   \<and> fst (getCurrentTimestamp \<lparr>clock = sconst 1735689600000000000, trace = []\<rparr>)
       = ''2025-01-01T00:00:00.000Z''
   \<and> iso8601_ms ''2025-01-01T00:00:00.000Z''
   \<and> instant_of_timestamp ''2025-01-01T00:00:00.000Z'' = Some 1735689600000
   \<and> drop 19 (fst (getCurrentTimestamp \<lparr>clock = sconst 1735689600000000000, trace = []\<rparr>)) = ''.000Z''
   \<and> clock_reading (shd (clock \<lparr>clock = sconst 1793333333000000000, trace = []\<rparr>))
   \<and> shd (clock \<lparr>clock = sconst 1793333333000000000, trace = []\<rparr>) div 1000000 mod 1000 = (0 :: int)
   \<and> fst (getCurrentTimestamp \<lparr>clock = sconst 1793333333000000000, trace = []\<rparr>)
       = ''2026-10-30T04:08:53.000Z''
   \<and> instant_of_timestamp ''2026-10-30T04:08:53.000Z'' = Some 1793333333000
   \<and> instant_of_timestamp ''2026-30-10T04:08:53.000Z'' = None
   \<and> instant_of_timestamp ''2026-10-30T08:04:53.000Z'' = Some 1793347493000
   \<and> drop 19 (fst (getCurrentTimestamp \<lparr>clock = sconst 1793333333000000000, trace = []\<rparr>)) = ''.000Z''"
proof -
  let ?w = "\<lparr>clock = sconst (1735689600000000000 :: int), trace = []\<rparr>"
  let ?v = "\<lparr>clock = sconst (1793333333000000000 :: int), trace = []\<rparr>"
  have h: "clock_reading (shd (clock ?w))" "clock_reading (shd (clock ?v))"
    by (simp_all add: clock_reading_def)
  have z: "shd (clock ?w) div 1000000 mod 1000 = (0 :: int)"
    "shd (clock ?v) div 1000000 mod 1000 = (0 :: int)" by simp_all
  have e: "fst (getCurrentTimestamp ?w) = ''2025-01-01T00:00:00.000Z''"
    "fst (getCurrentTimestamp ?v) = ''2026-10-30T04:08:53.000Z''"
    by (simp_all add: getCurrentTimestamp_def timestamp_of_new_year timestamp_of_autumn)
  note t = timestamp_is_iso8601_with_milliseconds[OF h(1)]
    timestamp_is_iso8601_with_milliseconds[OF h(2)]
  have a: "iso8601_ms ''2025-01-01T00:00:00.000Z''"
    "instant_of_timestamp ''2025-01-01T00:00:00.000Z'' = Some 1735689600000"
    "drop 19 (fst (getCurrentTimestamp ?w)) = ''.000Z''"
    using t(1) z(1) unfolding e(1) by simp_all
  have b: "instant_of_timestamp ''2026-10-30T04:08:53.000Z'' = Some 1793333333000"
    "drop 19 (fst (getCurrentTimestamp ?v)) = ''.000Z''"
    using t(2) z(2) unfolding e(2) by simp_all
  from h z e a b instant_of_timestamp_examples(3,4) show ?thesis by blast
qed

subsection \<open>Later clock readings give later timestamps\<close>

lemma lex_base_int:
  assumes "0 \<le> ra" "ra < c" "0 \<le> rb" "rb < c"
  shows "(qa < qb \<or> qa = qb \<and> ra < rb) = (c * qa + ra < c * qb + (rb :: int))"
proof (cases qa qb rule: linorder_cases)
  case less
  then have "qa + 1 \<le> qb" by simp
  then have "c * (qa + 1) \<le> c * qb" using assms by (intro mult_left_mono) simp_all
  with assms less show ?thesis by (simp add: distrib_left)
next
  case equal
  then show ?thesis by simp
next
  case greater
  then have "qb + 1 \<le> qa" by simp
  then have "c * (qb + 1) \<le> c * qa" using assms by (intro mult_left_mono) simp_all
  with assms greater show ?thesis by (simp add: distrib_left)
qed

lemma div_mod_less_int:
  "0 < c \<Longrightarrow> (a div c < b div c \<or> a div c = b div c \<and> a mod c < b mod c) = (a < (b :: int))"
  using lex_base_int[of "a mod c" c "b mod c" "a div c" "b div c"] by simp

lemma gmtime_date:
  assumes "year_of_days 1970 (t div 86400) = (y, yd)" "month_of_days y 0 yd = (m, md)"
  shows "tm_year (gmtime t) = y - 1900" "tm_mon (gmtime t) = m" "tm_mday (gmtime t) = md + 1"
  using assms by (simp_all add: gmtime_def Let_def)

lemma gmtime_time:
  "tm_hour (gmtime t) = t mod 86400 div 3600"
  "tm_min (gmtime t) = t mod 86400 div 60 mod 60"
  "tm_sec (gmtime t) = t mod 86400 mod 60"
  by (simp_all add: gmtime_def Let_def split: prod.splits)

text \<open>A later day is a later date.\<close>

lemma gmtime_date_strict_mono:
  assumes "0 \<le> t" "t div 86400 < t' div 86400"
  shows "tm_year (gmtime t) < tm_year (gmtime t')
    \<or> tm_year (gmtime t) = tm_year (gmtime t')
      \<and> (tm_mon (gmtime t) < tm_mon (gmtime t')
         \<or> tm_mon (gmtime t) = tm_mon (gmtime t') \<and> tm_mday (gmtime t) < tm_mday (gmtime t'))"
proof -
  obtain y yd where y: "year_of_days 1970 (t div 86400) = (y, yd)"
    by (cases "year_of_days 1970 (t div 86400)")
  obtain m md where m: "month_of_days y 0 yd = (m, md)" by (cases "month_of_days y 0 yd")
  obtain y' yd' where y': "year_of_days 1970 (t' div 86400) = (y', yd')"
    by (cases "year_of_days 1970 (t' div 86400)")
  obtain m' md' where m': "month_of_days y' 0 yd' = (m', md')" by (cases "month_of_days y' 0 yd'")
  have d0: "0 \<le> t div 86400" using assms(1) by (simp add: pos_imp_zdiv_nonneg_iff)
  note g = gmtime_date[OF y m] gmtime_date[OF y' m']
  from year_of_days_strict_mono[OF d0 assms(2) y y'] show ?thesis
  proof
    assume "y < y'"
    then show ?thesis unfolding g by simp
  next
    assume e: "y = y' \<and> yd < yd'"
    have "0 \<le> yd" using year_of_days_range[OF d0 y] by simp
    from month_of_days_strict_mono[OF this conjunct2[OF e] _ m m'[folded conjunct1[OF e]]] e
    show ?thesis unfolding g by auto
  qed
qed

text \<open>Within a day, a later second is a later time of day.\<close>

lemma time_of_day_strict_mono:
  assumes "0 \<le> s" "s < (s' :: int)"
  shows "s div 3600 < s' div 3600
    \<or> s div 3600 = s' div 3600
      \<and> (s div 60 mod 60 < s' div 60 mod 60
         \<or> s div 60 mod 60 = s' div 60 mod 60 \<and> s mod 60 < s' mod 60)"
proof -
  have 1: "s div 60 < s' div 60 \<or> s div 60 = s' div 60 \<and> s mod 60 < s' mod 60"
    using assms(2) div_mod_less_int[of 60 s s'] by simp
  have 2: "(s div 60 div 60 < s' div 60 div 60
      \<or> s div 60 div 60 = s' div 60 div 60 \<and> s div 60 mod 60 < s' div 60 mod 60)
      = (s div 60 < s' div 60)"
    by (rule div_mod_less_int) simp
  have 3: "s div 60 div 60 = s div 3600" "s' div 60 div 60 = s' div 3600"
    by (simp_all add: div_mult2_eq[symmetric])
  have 4: "s div 60 = s' div 60 \<Longrightarrow> s div 3600 = s' div 3600 \<and> s div 60 mod 60 = s' div 60 mod 60"
    using 3 by metis
  from 1 2 3 4 show ?thesis by metis
qed

lemma fixed_digits_int_less:
  assumes "0 \<le> a" "a < 10 ^ k" "0 \<le> b" "b < 10 ^ k"
  shows "(fixed_digits k (nat a) < fixed_digits k (nat b)) = (a < b)"
proof -
  have "nat a < 10 ^ k" "nat b < 10 ^ k"
    using assms by (simp_all add: nat_less_iff)
  from fixed_digits_less[OF this] assms show ?thesis by auto
qed

lemma fixed_digits_int_eq:
  assumes "0 \<le> a" "a < 10 ^ k" "0 \<le> b" "b < 10 ^ k"
  shows "(fixed_digits k (nat a) = fixed_digits k (nat b)) = (a = b)"
proof -
  have "nat a < 10 ^ k" "nat b < 10 ^ k"
    using assms by (simp_all add: nat_less_iff)
  from fixed_digits_eq[OF this] assms show ?thesis by auto
qed

text \<open>Timestamps compare as their fields do, the most significant first.\<close>

lemma stamp_le:
  fixes y m d h i s f y' m' d' h' i' s' f' :: int
  assumes "0 \<le> y" "y < 10 ^ 4" "0 \<le> m" "m < 10 ^ 2" "0 \<le> d" "d < 10 ^ 2" "0 \<le> h" "h < 10 ^ 2"
    "0 \<le> i" "i < 10 ^ 2" "0 \<le> s" "s < 10 ^ 2" "0 \<le> f" "f < 10 ^ 3"
    and "0 \<le> y'" "y' < 10 ^ 4" "0 \<le> m'" "m' < 10 ^ 2" "0 \<le> d'" "d' < 10 ^ 2" "0 \<le> h'" "h' < 10 ^ 2"
    "0 \<le> i'" "i' < 10 ^ 2" "0 \<le> s'" "s' < 10 ^ 2" "0 \<le> f'" "f' < 10 ^ 3"
  shows "(fixed_digits 4 (nat y) @ CHR ''-'' # fixed_digits 2 (nat m) @ CHR ''-'' #
          fixed_digits 2 (nat d) @ CHR ''T'' # fixed_digits 2 (nat h) @ CHR '':'' #
          fixed_digits 2 (nat i) @ CHR '':'' # fixed_digits 2 (nat s) @ CHR ''.'' #
          fixed_digits 3 (nat f) @ ''Z''
        \<le> fixed_digits 4 (nat y') @ CHR ''-'' # fixed_digits 2 (nat m') @ CHR ''-'' #
          fixed_digits 2 (nat d') @ CHR ''T'' # fixed_digits 2 (nat h') @ CHR '':'' #
          fixed_digits 2 (nat i') @ CHR '':'' # fixed_digits 2 (nat s') @ CHR ''.'' #
          fixed_digits 3 (nat f') @ ''Z'')
     = (y < y' \<or> y = y' \<and> (m < m' \<or> m = m' \<and> (d < d' \<or> d = d' \<and> (h < h' \<or> h = h' \<and>
         (i < i' \<or> i = i' \<and> (s < s' \<or> s = s' \<and> f \<le> f'))))))"
proof -
  note l = fixed_digits_int_less fixed_digits_int_eq
  have last: "(fixed_digits 3 (nat f) @ ''Z'' \<le> fixed_digits 3 (nat f') @ ''Z'') = (f \<le> f')"
    using l(1)[OF assms(13,14,27,28)] l(2)[OF assms(13,14,27,28)]
    by (simp add: append_le_same_length length_fixed_digits) auto
  show ?thesis
    by (simp only: append_le_same_length length_fixed_digits Cons_le_Cons last
        l(1)[OF assms(1,2,15,16)] l(2)[OF assms(1,2,15,16)]
        l(1)[OF assms(3,4,17,18)] l(2)[OF assms(3,4,17,18)]
        l(1)[OF assms(5,6,19,20)] l(2)[OF assms(5,6,19,20)]
        l(1)[OF assms(7,8,21,22)] l(2)[OF assms(7,8,21,22)]
        l(1)[OF assms(9,10,23,24)] l(2)[OF assms(9,10,23,24)]
        l(1)[OF assms(11,12,25,26)] l(2)[OF assms(11,12,25,26)]
        order_less_irrefl simp_thms)
qed

lemma gmtime_date_same_day:
  assumes "t div 86400 = t' div 86400"
  shows "tm_year (gmtime t) = tm_year (gmtime t')" "tm_mon (gmtime t) = tm_mon (gmtime t')"
    "tm_mday (gmtime t) = tm_mday (gmtime t')"
  using assms by (simp_all add: gmtime_def Let_def split: prod.splits)

lemma timestamp_key_mono:
  assumes "clock_reading a" "clock_reading b" "a \<le> b"
  defines "ta \<equiv> a div 1000000000" and "tb \<equiv> b div 1000000000"
  shows "tm_year (gmtime ta) < tm_year (gmtime tb) \<or> tm_year (gmtime ta) = tm_year (gmtime tb) \<and>
    (tm_mon (gmtime ta) < tm_mon (gmtime tb) \<or> tm_mon (gmtime ta) = tm_mon (gmtime tb) \<and>
    (tm_mday (gmtime ta) < tm_mday (gmtime tb) \<or> tm_mday (gmtime ta) = tm_mday (gmtime tb) \<and>
    (tm_hour (gmtime ta) < tm_hour (gmtime tb) \<or> tm_hour (gmtime ta) = tm_hour (gmtime tb) \<and>
    (tm_min (gmtime ta) < tm_min (gmtime tb) \<or> tm_min (gmtime ta) = tm_min (gmtime tb) \<and>
    (tm_sec (gmtime ta) < tm_sec (gmtime tb) \<or> tm_sec (gmtime ta) = tm_sec (gmtime tb) \<and>
     a div 1000000 mod 1000 \<le> b div 1000000 mod 1000)))))"
proof -
  have ta0: "0 \<le> ta" using clock_reading_parts(3)[OF assms(1)] by (simp add: ta_def)
  have le: "ta \<le> tb" unfolding ta_def tb_def using assms(3) by (intro zdiv_mono1) simp_all
  have split: "(ta div 86400 < tb div 86400 \<or> ta div 86400 = tb div 86400 \<and> ta mod 86400 < tb mod 86400)
      = (ta < tb)"
    by (rule div_mod_less_int) simp
  from le split consider
    (day) "ta div 86400 < tb div 86400"
    | (sec) "ta div 86400 = tb div 86400" "ta mod 86400 < tb mod 86400"
    | (same) "ta = tb"
    by fastforce
  then show ?thesis
  proof cases
    case day
    from gmtime_date_strict_mono[OF ta0 day] show ?thesis by blast
  next
    case sec
    have "0 \<le> ta mod 86400" by simp
    from time_of_day_strict_mono[OF this sec(2)] gmtime_date_same_day[OF sec(1)]
    show ?thesis unfolding gmtime_time by blast
  next
    case same
    have ua: "a div 1000000 div 1000 = ta" "b div 1000000 div 1000 = tb"
      unfolding ta_def tb_def by (simp_all add: zdiv_zmult2_eq[symmetric])
    have "a div 1000000 \<le> b div 1000000" using assms(3) by (intro zdiv_mono1) simp_all
    moreover have "(a div 1000000 div 1000 < b div 1000000 div 1000
        \<or> a div 1000000 div 1000 = b div 1000000 div 1000
          \<and> a div 1000000 mod 1000 < b div 1000000 mod 1000)
        = (a div 1000000 < b div 1000000)"
      by (rule div_mod_less_int) simp
    ultimately have "a div 1000000 mod 1000 \<le> b div 1000000 mod 1000"
      unfolding ua same by fastforce
    then show ?thesis unfolding same by simp
  qed
qed

lemma timestamp_key_mono_printed:
  assumes "clock_reading a" "clock_reading b" "a \<le> b"
  shows "tm_year (gmtime (a div 1000000000)) + 1900 < tm_year (gmtime (b div 1000000000)) + 1900
     \<or> tm_year (gmtime (a div 1000000000)) + 1900 = tm_year (gmtime (b div 1000000000)) + 1900 \<and>
    (tm_mon (gmtime (a div 1000000000)) + 1 < tm_mon (gmtime (b div 1000000000)) + 1
     \<or> tm_mon (gmtime (a div 1000000000)) + 1 = tm_mon (gmtime (b div 1000000000)) + 1 \<and>
    (tm_mday (gmtime (a div 1000000000)) < tm_mday (gmtime (b div 1000000000))
     \<or> tm_mday (gmtime (a div 1000000000)) = tm_mday (gmtime (b div 1000000000)) \<and>
    (tm_hour (gmtime (a div 1000000000)) < tm_hour (gmtime (b div 1000000000))
     \<or> tm_hour (gmtime (a div 1000000000)) = tm_hour (gmtime (b div 1000000000)) \<and>
    (tm_min (gmtime (a div 1000000000)) < tm_min (gmtime (b div 1000000000))
     \<or> tm_min (gmtime (a div 1000000000)) = tm_min (gmtime (b div 1000000000)) \<and>
    (tm_sec (gmtime (a div 1000000000)) < tm_sec (gmtime (b div 1000000000))
     \<or> tm_sec (gmtime (a div 1000000000)) = tm_sec (gmtime (b div 1000000000)) \<and>
     a div 1000000 mod 1000 \<le> b div 1000000 mod 1000)))))"
  using timestamp_key_mono[OF assms] by (simp only: add_less_cancel_right add_right_cancel)

text \<open>The timestamps of two clock readings are in the order of the readings.\<close>

lemma timestamp_of_mono:
  assumes "clock_reading a" "clock_reading b" "a \<le> b"
  shows "timestamp_of a \<le> timestamp_of b"
proof -
  note pa = clock_reading_parts[OF assms(1)] and pb = clock_reading_parts[OF assms(2)]
  note ra = gmtime_range[OF pa(3,4)] and rb = gmtime_range[OF pb(3,4)]
  have fa: "0 \<le> a div 1000000 mod 1000" "a div 1000000 mod 1000 < 10 ^ 3"
    and fb: "0 \<le> b div 1000000 mod 1000" "b div 1000000 mod 1000 < 10 ^ 3"
    by simp_all
  show ?thesis
    unfolding timestamp_of_fields[OF assms(1)] timestamp_of_fields[OF assms(2)]
    apply (subst stamp_le)
    using ra rb fa fb apply simp_all[28]
    apply (rule timestamp_key_mono_printed[OF assms])
    done
qed

subsection \<open>The Readings of a whole run\<close>

lemma split_lines_append:
  "split_lines acc (x @ newline # y) = split_lines acc (x @ [newline]) @ split_lines [] y"
  by (induction x arbitrary: acc) simp_all

lemma split_lines_after_complete:
  assumes "a = [] \<or> last a = newline"
  shows "split_lines [] (a @ b) = split_lines [] a @ split_lines [] b"
proof (cases "a = []")
  case True
  then show ?thesis by simp
next
  case False
  with assms have "a = butlast a @ [newline]" by (metis append_butlast_last_id)
  then obtain x where a: "a = x @ [newline]" ..
  show ?thesis unfolding a using split_lines_append[of "[]" x b] by simp
qed

lemma written_cout_cycle_events:
  "written Cout (cycle_events c g clk) \<noteq> [] \<and> last (written Cout (cycle_events c g clk)) = newline"
  by (simp add: cycle_events_def)

lemma written_cout_run_events:
  "written Cout (run_events n g clk) = [] \<or> last (written Cout (run_events n g clk)) = newline"
proof (induction n)
  case 0
  then show ?case by (simp add: run_events_def)
next
  case (Suc n)
  show ?case
    unfolding run_events_Suc written_append using written_cout_cycle_events by simp
qed

lemma readings_run_events_Suc:
  "readings (run_events (Suc n) g clk) =
     readings (run_events n g clk)
     @ readings (cycle_events (of_nat (Suc n)) (sdrop (12 * n) g) (sdrop (3 * n) clk))"
  unfolding run_events_Suc readings_def lines_written_def written_append
  by (simp add: split_lines_after_complete[OF written_cout_run_events])

lemma timestamps_cycle_events:
  "timestamps (cycle_events c g clk) = map timestamp_of (stake 3 clk)"
proof -
  have "stake 3 clk = [clk !! 0, clk !! 1, clk !! 2]"
  proof -
    have "stake (Suc (Suc (Suc 0))) clk = [shd clk, shd (stl clk), shd (stl (stl clk))]" by simp
    moreover have "Suc (Suc (Suc 0)) = 3" by simp
    moreover have "clk !! 1 = shd (stl clk)" by simp
    moreover have "clk !! 2 = shd (stl (stl clk))"
    proof -
      have "clk !! Suc (Suc 0) = shd (stl (stl clk))" by simp
      moreover have "Suc (Suc 0) = 2" by simp
      ultimately show ?thesis by (simp only:)
    qed
    ultimately show ?thesis by (simp only: snth.simps)
  qed
  then show ?thesis
    unfolding timestamps_def readings_cycle_events by (simp del: snth.simps)
qed

lemma timestamps_run_events:
  "timestamps (run_events n g clk) = map timestamp_of (stake (3 * n) clk)"
proof (induction n)
  case 0
  then show ?case by (simp add: run_events_def timestamps_def readings_def lines_written_def)
next
  case (Suc n)
  have "timestamps (run_events (Suc n) g clk)
      = timestamps (run_events n g clk)
        @ timestamps (cycle_events (of_nat (Suc n)) (sdrop (12 * n) g) (sdrop (3 * n) clk))"
    by (simp add: timestamps_def readings_run_events_Suc)
  also have "\<dots> = map timestamp_of (stake (3 * n) clk @ stake 3 (sdrop (3 * n) clk))"
    by (simp only: Suc.IH timestamps_cycle_events map_append)
  also have "stake (3 * n) clk @ stake 3 (sdrop (3 * n) clk) = stake (3 * n + 3) clk"
    by (rule stake_add)
  also have "3 * n + 3 = 3 * Suc n" by simp
  finally show ?case .
qed

lemma length_readings_run_events: "length (readings (run_events n g clk)) = 3 * n"
  by (induction n) (simp_all add: readings_run_events_Suc readings_cycle_events,
      simp add: run_events_def readings_def lines_written_def)

lemma readings_after_cycles:
  "readings (trace (env (after_cycles n seeded rd \<lparr>clock = clk, trace = []\<rparr>)))
     = readings (run_events n (seeded rd) clk)"
  by (simp add: after_cycles_state readings_def lines_written_def written_append startup_events_def)

lemma timestamps_after_cycles:
  "timestamps (trace (env (after_cycles n seeded rd \<lparr>clock = clk, trace = []\<rparr>)))
     = map timestamp_of (stake (3 * n) clk)"
  unfolding timestamps_def readings_after_cycles
  using timestamps_run_events[of n "seeded rd" clk] by (simp add: timestamps_def)

text \<open>
  C9, as the code has it. The \<open>k\<close>-th Reading of a run carries the timestamp of the \<open>k\<close>-th
  reading of the system clock: each call of \<^verbatim>\<open>emitPowerEvent\<close> reads the clock once, for
  itself. So when the clock's successive readings do not decrease (and are readings at or
  after the epoch), the timestamps of consecutively emitted Readings do not decrease either,
  in the order of their text. Nothing in the program orders the timestamps when the clock
  itself is set back between two readings.
\<close>

theorem timestamps_nondecreasing_when_clock_is:
  assumes "list_all clock_reading (stake (3 * n) clk)" "sorted (stake (3 * n) clk)"
  shows "timestamps (trace (env (after_cycles n seeded rd \<lparr>clock = clk, trace = []\<rparr>)))
       = map timestamp_of (stake (3 * n) clk)
    \<and> length (readings (trace (env (after_cycles n seeded rd \<lparr>clock = clk, trace = []\<rparr>)))) = 3 * n
    \<and> sorted (timestamps (trace (env (after_cycles n seeded rd \<lparr>clock = clk, trace = []\<rparr>))))"
proof -
  have "sorted_wrt (\<lambda>a b. timestamp_of a \<le> timestamp_of b) (stake (3 * n) clk)"
    using assms(2)
  proof (rule sorted_wrt_mono_rel[rotated])
    fix a b
    assume "a \<in> set (stake (3 * n) clk)" "b \<in> set (stake (3 * n) clk)" "a \<le> b"
    with assms(1) show "timestamp_of a \<le> timestamp_of b"
      by (intro timestamp_of_mono) (simp_all add: list_all_iff)
  qed
  then have "sorted (map timestamp_of (stake (3 * n) clk))" by (simp add: sorted_map)
  then show ?thesis
    unfolding timestamps_after_cycles readings_after_cycles
    by (simp add: length_readings_run_events)
qed

lemma timestamp_of_examples:
  "timestamp_of 1793333332000000000 = ''2026-10-30T04:08:52.000Z''"
  "timestamp_of 1793333333000000000 = ''2026-10-30T04:08:53.000Z''"
  "timestamp_of 1793333333250000000 = ''2026-10-30T04:08:53.250Z''"
  by code_simp+

lemma stake_3:
  "stake 3 (a ## b ## c ## s) = [a, b, c]"
proof -
  have "stake (Suc (Suc (Suc 0))) (a ## b ## c ## s) = [a, b, c]" by simp
  moreover have "Suc (Suc (Suc 0)) = 3" by simp
  ultimately show ?thesis by (simp only:)
qed

theorem timestamps_nondecreasing_when_clock_is_witness:
  "list_all clock_reading (stake (3 * 1) (1793333332000000000 ## 1793333333000000000
        ## 1793333333250000000 ## sconst 0))
   \<and> sorted (stake (3 * 1) (1793333332000000000 ## 1793333333000000000 ## 1793333333250000000
        ## sconst (0 :: int)))
   \<and> timestamps (trace (env (after_cycles 1 (siterate (\<lambda>x. x * 1664525 + 1013904223)) 42
        \<lparr>clock = 1793333332000000000 ## 1793333333000000000 ## 1793333333250000000 ## sconst 0,
         trace = []\<rparr>)))
     = [''2026-10-30T04:08:52.000Z'', ''2026-10-30T04:08:53.000Z'', ''2026-10-30T04:08:53.250Z'']
   \<and> sorted (timestamps (trace (env (after_cycles 1 (siterate (\<lambda>x. x * 1664525 + 1013904223)) 42
        \<lparr>clock = 1793333332000000000 ## 1793333333000000000 ## 1793333333250000000 ## sconst 0,
         trace = []\<rparr>))))"
proof -
  let ?clk = "1793333332000000000 ## 1793333333000000000 ## 1793333333250000000 ## sconst (0 :: int)"
  have h1: "list_all clock_reading (stake (3 * 1) ?clk)"
    by (simp add: stake_3 clock_reading_def)
  have h2: "sorted (stake (3 * 1) ?clk)" by (simp add: stake_3)
  note t = timestamps_nondecreasing_when_clock_is[OF h1 h2,
      of "siterate (\<lambda>x. x * 1664525 + 1013904223)" 42]
  have e: "map timestamp_of (stake (3 * 1) ?clk)
      = [''2026-10-30T04:08:52.000Z'', ''2026-10-30T04:08:53.000Z'', ''2026-10-30T04:08:53.250Z'']"
    by (simp add: stake_3 timestamp_of_examples)
  from t h1 h2 show ?thesis unfolding e by blast
qed

text \<open>
  C9 without the condition on the clock does not hold: when the wall clock is set back
  between two Readings (here its second reading is one second before its first), the later
  Reading carries the smaller timestamp.
\<close>

theorem timestamps_decrease_when_clock_set_back:
  "timestamps (trace (env (after_cycles 1 (siterate (\<lambda>x. x * 1664525 + 1013904223)) 42
       \<lparr>clock = 1793333333000000000 ## 1793333332000000000 ## 1793333333250000000 ## sconst 0,
        trace = []\<rparr>)))
     = [''2026-10-30T04:08:53.000Z'', ''2026-10-30T04:08:52.000Z'', ''2026-10-30T04:08:53.250Z'']
   \<and> ''2026-10-30T04:08:52.000Z'' < ''2026-10-30T04:08:53.000Z''
   \<and> \<not> sorted (timestamps (trace (env (after_cycles 1 (siterate (\<lambda>x. x * 1664525 + 1013904223)) 42
       \<lparr>clock = 1793333333000000000 ## 1793333332000000000 ## 1793333333250000000 ## sconst 0,
        trace = []\<rparr>))))"
  unfolding timestamps_after_cycles
  by (simp add: stake_3 timestamp_of_examples)

end
